theory Spec2Isabelle
  imports
    Main
    "HOL-Library.AList"
    "HOL-Library.Char_ord"
    "HOL-Library.List_Lexorder"
    "HOL-Library.Product_Lexorder"
    "HOL-Library.Multiset"
begin

section \<open>The cache engine (\<^verbatim>\<open>src/utils/cache.ts\<close>)\<close>

text \<open>
  \<^verbatim>\<open>InMemoryCache<Value>\<close> owns a JavaScript \<^verbatim>\<open>Map<string, CacheEntry<Value>>\<close>, its options and
  the counter \<^verbatim>\<open>accessCounter\<close>. A JavaScript \<^verbatim>\<open>Map\<close> iterates in insertion order and
  \<^verbatim>\<open>Map.set\<close> on a key that is present replaces the value where it stands, so the store is an
  association list: \<^const>\<open>map_of\<close> is \<^verbatim>\<open>Map.get\<close>, \<^const>\<open>AList.update\<close> is \<^verbatim>\<open>Map.set\<close> (replace in
  place, otherwise append), \<^const>\<open>AList.delete\<close> is \<^verbatim>\<open>Map.delete\<close> and \<^const>\<open>length\<close> is
  \<^verbatim>\<open>Map.size\<close> (the keys of the list stay distinct, see \<open>cache_inv\<close>).

  Times are milliseconds since the epoch as \<^typ>\<open>int\<close>; \<^verbatim>\<open>Date.now()\<close> is an argument of the
  operation that reads it. \<^verbatim>\<open>ttlSeconds\<close> is a whole number of seconds and \<^verbatim>\<open>maxItems\<close> a
  natural number; fractional settings and the rounding of doubles are outside the model.
  \<^verbatim>\<open>Number.POSITIVE_INFINITY\<close> is a constructor of its own.
\<close>

record CacheOptions =
  ttlSeconds :: int
  maxItems :: nat

datatype expiry = Finite int | PositiveInfinity

record 'v CacheEntry =
  "value" :: 'v
  expiresAt :: expiry
  lastAccessCounter :: nat

record 'v InMemoryCache =
  store :: "(string \<times> 'v CacheEntry) list"
  options :: CacheOptions
  accessCounter :: nat

text \<open>\<^verbatim>\<open>new InMemoryCache(options)\<close>: empty store, counter 0.\<close>

definition new_cache :: "CacheOptions \<Rightarrow> 'v InMemoryCache" where
  "new_cache opts = \<lparr>store = [], options = opts, accessCounter = 0\<rparr>"

text \<open>\<^verbatim>\<open>now > entry.expiresAt\<close>.\<close>

fun after :: "int \<Rightarrow> expiry \<Rightarrow> bool" where
  "after now (Finite t) = (now > t)"
| "after now PositiveInfinity = False"

text \<open>
  \<^verbatim>\<open>get(key)\<close> at time \<open>now\<close>: the returned value (\<open>None\<close> is \<^verbatim>\<open>undefined\<close>) and the cache
  afterwards.
\<close>

definition cache_get :: "'v InMemoryCache \<Rightarrow> int \<Rightarrow> string \<Rightarrow> 'v option \<times> 'v InMemoryCache" where
  "cache_get c now key =
     (case map_of (store c) key of
        None \<Rightarrow> (None, c)
      | Some entry \<Rightarrow>
          if ttlSeconds (options c) > 0 \<and> after now (expiresAt entry)
          then (None, c\<lparr>store := AList.delete key (store c)\<rparr>)
          else (Some (value entry),
                c\<lparr>store := AList.update key (entry\<lparr>lastAccessCounter := accessCounter c + 1\<rparr>) (store c),
                  accessCounter := accessCounter c + 1\<rparr>))"

text \<open>
  The scan of \<^verbatim>\<open>enforceMaxItems\<close>: \<^verbatim>\<open>lruKey\<close> starts \<^verbatim>\<open>undefined\<close>, \<^verbatim>\<open>lowestCounter\<close> starts at
  \<^verbatim>\<open>+Infinity\<close> (here \<open>None\<close>), and an entry replaces the candidate when its counter is strictly
  lower.
\<close>

fun below :: "nat \<Rightarrow> nat option \<Rightarrow> bool" where
  "below n None = True"
| "below n (Some m) = (n < m)"

fun lru_scan :: "(string \<times> 'v CacheEntry) list \<Rightarrow> string option \<times> nat option \<Rightarrow> string option \<times> nat option" where
  "lru_scan [] acc = acc"
| "lru_scan ((key, entry) # rest) (lruKey, lowestCounter) =
     (if below (lastAccessCounter entry) lowestCounter
      then lru_scan rest (Some key, Some (lastAccessCounter entry))
      else lru_scan rest (lruKey, lowestCounter))"

definition enforceMaxItems :: "'v InMemoryCache \<Rightarrow> 'v InMemoryCache" where
  "enforceMaxItems c =
     (if length (store c) \<le> maxItems (options c) then c
      else (case fst (lru_scan (store c) (None, None)) of
              None \<Rightarrow> c
            | Some lruKey \<Rightarrow> c\<lparr>store := AList.delete lruKey (store c)\<rparr>))"

text \<open>\<^verbatim>\<open>set(key, value)\<close> at time \<open>now\<close>.\<close>

definition cache_set :: "'v InMemoryCache \<Rightarrow> int \<Rightarrow> string \<Rightarrow> 'v \<Rightarrow> 'v InMemoryCache" where
  "cache_set c now key v =
     (let expires = (if ttlSeconds (options c) > 0
                     then Finite (now + ttlSeconds (options c) * 1000)
                     else PositiveInfinity)
      in enforceMaxItems
           (c\<lparr>store := AList.update key
                          \<lparr>value = v, expiresAt = expires, lastAccessCounter = accessCounter c + 1\<rparr>
                          (store c),
              accessCounter := accessCounter c + 1\<rparr>))"

definition cache_delete :: "'v InMemoryCache \<Rightarrow> string \<Rightarrow> 'v InMemoryCache" where
  "cache_delete c key = c\<lparr>store := AList.delete key (store c)\<rparr>"

definition cache_clear :: "'v InMemoryCache \<Rightarrow> 'v InMemoryCache" where
  "cache_clear c = c\<lparr>store := [], accessCounter := 0\<rparr>"


section \<open>JSON values and \<^verbatim>\<open>JSON.stringify\<close>\<close>

text \<open>
  The values \<^verbatim>\<open>JSON.parse\<close> can return. An object is the list of its own properties in
  creation order, which is the order \<^verbatim>\<open>JSON.stringify\<close> writes them in (the property names
  that occur here are not array indices); \<^verbatim>\<open>JSON.parse\<close> never produces an object with a
  repeated name. Strings are lists of bytes, a text in UTF-8. Numbers are integers; numbers
  with a fraction, minus zero, numbers of 21 digits or more and the two infinities (which
  \<^verbatim>\<open>JSON.parse\<close> returns for a numeral beyond the range of a double, such as \<^verbatim>\<open>1e999\<close>, and
  \<^verbatim>\<open>JSON.stringify\<close> writes as \<^verbatim>\<open>null\<close>) are outside the model.
\<close>

datatype json =
    JNull
  | JBool bool
  | JNum int
  | JStr string
  | JArr "json list"
  | JObj "(string \<times> json) list"

text \<open>
  Reading the property \<open>name\<close> of a value that is not \<^verbatim>\<open>null\<close>, for a name that no prototype
  defines (\<^verbatim>\<open>addedAt\<close>, \<^verbatim>\<open>contentId\<close>): \<open>None\<close> is \<^verbatim>\<open>undefined\<close>.
\<close>

fun get_prop :: "json \<Rightarrow> string \<Rightarrow> json option" where
  "get_prop (JObj props) name = map_of props name"
| "get_prop _ name = None"

text \<open>JavaScript truthiness, as \<^verbatim>\<open>!x\<close> and \<^verbatim>\<open>if (x)\<close> test it.\<close>

fun truthy :: "json option \<Rightarrow> bool" where
  "truthy None = False"
| "truthy (Some JNull) = False"
| "truthy (Some (JBool b)) = b"
| "truthy (Some (JNum n)) = (n \<noteq> 0)"
| "truthy (Some (JStr s)) = (s \<noteq> [])"
| "truthy (Some (JArr xs)) = True"
| "truthy (Some (JObj props)) = True"

text \<open>
  \<^verbatim>\<open>JSON.stringify\<close> without indentation (ECMA-262, 25.5.2): a string is quoted with the
  escapes of \<^verbatim>\<open>QuoteJSONString\<close>, an integer is written in decimal.
\<close>

definition hex_digit :: "nat \<Rightarrow> char" where
  "hex_digit n = ''0123456789abcdef'' ! n"

definition escape_char :: "char \<Rightarrow> string" where
  "escape_char c =
     (if c = CHR 0x22 then [CHR 0x5C, CHR 0x22]
      else if c = CHR 0x5C then [CHR 0x5C, CHR 0x5C]
      else if c = CHR 0x08 then [CHR 0x5C, CHR ''b'']
      else if c = CHR 0x0C then [CHR 0x5C, CHR ''f'']
      else if c = CHR 0x0A then [CHR 0x5C, CHR ''n'']
      else if c = CHR 0x0D then [CHR 0x5C, CHR ''r'']
      else if c = CHR 0x09 then [CHR 0x5C, CHR ''t'']
      else if (of_char c :: nat) < 0x20
      then [CHR 0x5C, CHR ''u'', CHR ''0'', CHR ''0'',
            hex_digit (of_char c div 16), hex_digit (of_char c mod 16)]
      else [c])"

definition QuoteJSONString :: "string \<Rightarrow> string" where
  "QuoteJSONString s = CHR 0x22 # concat (map escape_char s) @ [CHR 0x22]"

fun digits :: "nat \<Rightarrow> string" where
  "digits n = (if n < 10 then [char_of (48 + n)] else digits (n div 10) @ [char_of (48 + n mod 10)])"

declare digits.simps [simp del]

definition NumberToString :: "int \<Rightarrow> string" where
  "NumberToString i = (if i < 0 then CHR ''-'' # digits (nat (- i)) else digits (nat i))"

fun join :: "string \<Rightarrow> string list \<Rightarrow> string" where
  "join sep [] = []"
| "join sep [x] = x"
| "join sep (x # y # ys) = x @ sep @ join sep (y # ys)"

primrec JSON_stringify :: "json \<Rightarrow> string" where
  "JSON_stringify JNull = ''null''"
| "JSON_stringify (JBool b) = (if b then ''true'' else ''false'')"
| "JSON_stringify (JNum n) = NumberToString n"
| "JSON_stringify (JStr s) = QuoteJSONString s"
| "JSON_stringify (JArr xs) = ''['' @ join '','' (map JSON_stringify xs) @ '']''"
| "JSON_stringify (JObj props) =
     ''{'' @ join '','' (map (\<lambda>(name, text). QuoteJSONString name @ '':'' @ text)
                           (map (map_prod id JSON_stringify) props)) @ ''}''"

section \<open>What the code takes from Node.js, Mongoose and zod\<close>

text \<open>
  The functions of the platform that the repository calls and does not define are
  parameters of the model:
  \<^item> \<open>Number_of_string s\<close> is \<open>Some n\<close> when \<^verbatim>\<open>Number(s)\<close> is the integer \<open>n\<close> and \<open>None\<close> when
    \<^verbatim>\<open>Number.isInteger(Number(s))\<close> is false (\<^verbatim>\<open>NaN\<close>, an infinity, a fraction);
  \<^item> \<open>base64_to_utf8 s\<close> is \<^verbatim>\<open>Buffer.from(s, 'base64').toString('utf8')\<close>, which never throws;
  \<^item> \<open>utf8_to_base64 s\<close> is \<^verbatim>\<open>Buffer.from(s, 'utf8').toString('base64')\<close>;
  \<^item> \<open>JSON_parse s\<close> is \<^verbatim>\<open>JSON.parse(s)\<close>, \<open>None\<close> when it throws a \<^verbatim>\<open>SyntaxError\<close>;
  \<^item> \<open>new_Date v\<close> is the time value of \<^verbatim>\<open>new Date(v)\<close>, \<open>None\<close> for an invalid date;
  \<^item> \<open>toISOString t\<close> is \<^verbatim>\<open>new Date(t).toISOString()\<close>;
  \<^item> \<open>castString v\<close> is the string Mongoose makes of a query operand of the \<^verbatim>\<open>String\<close> path
    \<^verbatim>\<open>contentId\<close>, \<open>None\<close> when it rejects the operand with a \<^verbatim>\<open>CastError\<close>.
\<close>

record platform =
  Number_of_string :: "string \<Rightarrow> int option"
  base64_to_utf8 :: "string \<Rightarrow> string"
  utf8_to_base64 :: "string \<Rightarrow> string"
  JSON_parse :: "string \<Rightarrow> json option"
  new_Date :: "json option \<Rightarrow> int option"
  toISOString :: "int \<Rightarrow> string"
  castString :: "json option \<Rightarrow> string option"

section \<open>Errors and the error handler (\<^verbatim>\<open>src/middleware/errorHandler.ts\<close>)\<close>

text \<open>
  \<open>HttpError message statusCode errorCode\<close> is the class of the repository. The other
  constructors are the errors that are not instances of it: zod's \<^verbatim>\<open>ZodError\<close>, a
  \<^verbatim>\<open>TypeError\<close> of the runtime, Mongoose's \<^verbatim>\<open>CastError\<close> and any other rejection of a
  persistence call.
\<close>

datatype error =
    HttpError string nat string
  | ZodError
  | TypeError
  | CastError
  | StoreError

datatype ListableContentKind = Movie | TVShow

text \<open>
  A document of the collection \<^verbatim>\<open>my_list\<close>, which is also the shape of \<^verbatim>\<open>MyListItemDTO\<close>;
  \<open>addedAt\<close> is the time value of the \<^verbatim>\<open>Date\<close>. The \<^verbatim>\<open>_id\<close> of the store is not modelled.
\<close>

record MyListItem =
  userId :: string
  contentId :: string
  contentType :: ListableContentKind
  title :: string
  genres :: "string list"
  addedAt :: int

record ListCacheValue =
  items :: "MyListItem list"
  nextCursor :: "string option"

datatype body =
    Data_item MyListItem
  | Data_page ListCacheValue
  | Error_code string

record response =
  status :: nat
  body :: body

text \<open>The JSON of a failure carries \<^verbatim>\<open>error.code\<close>; its \<^verbatim>\<open>message\<close> is not modelled.\<close>

fun errorHandler :: "error \<Rightarrow> response" where
  "errorHandler (HttpError message statusCode errorCode) =
     \<lparr>status = statusCode, body = Error_code errorCode\<rparr>"
| "errorHandler err = \<lparr>status = 500, body = Error_code ''internal_error''\<rparr>"

section \<open>The service (\<^verbatim>\<open>src/services/myListService.ts\<close>)\<close>

subsection \<open>Cursor codec\<close>

text \<open>
  \<^verbatim>\<open>encodeCursor\<close> takes the object it is given; \<^verbatim>\<open>listMyList\<close> builds that object with the
  literal \<^verbatim>\<open>{ addedAt: ..., contentId: ... }\<close>, which is \<open>cursor_object\<close>.
\<close>

definition cursor_object :: "string \<Rightarrow> string \<Rightarrow> json" where
  "cursor_object a c = JObj [(''addedAt'', JStr a), (''contentId'', JStr c)]"

definition encodeCursor :: "platform \<Rightarrow> json \<Rightarrow> string" where
  "encodeCursor env cur = utf8_to_base64 env (JSON_stringify cur)"

text \<open>
  \<^verbatim>\<open>decodeCursor\<close>: every exception inside the \<^verbatim>\<open>try\<close> block, the \<^verbatim>\<open>TypeError\<close> of reading a
  property of \<^verbatim>\<open>null\<close> included, is replaced by the same \<^verbatim>\<open>HttpError\<close>. The value returned
  is the parsed value itself: \<^verbatim>\<open>as CursorPayload\<close> checks nothing at run time.
\<close>

definition invalid_cursor :: error where
  "invalid_cursor = HttpError ''Invalid cursor provided'' 400 ''invalid_cursor''"

definition decodeCursor :: "platform \<Rightarrow> string \<Rightarrow> error + json" where
  "decodeCursor env rawCursor =
     (let decoded = base64_to_utf8 env rawCursor in
      case JSON_parse env decoded of
        None \<Rightarrow> Inl invalid_cursor
      | Some parsed \<Rightarrow>
          if parsed = JNull then Inl invalid_cursor
          else if \<not> truthy (get_prop parsed ''addedAt'') \<or> \<not> truthy (get_prop parsed ''contentId'')
          then Inl invalid_cursor
          else Inr parsed)"

subsection \<open>Cache key\<close>

record ListOptions =
  limit :: nat
  cursor :: "json option"

text \<open>
  \<^verbatim>\<open>JSON.stringify({ userId, limit: options.limit, cursor: options.cursor })\<close>; a property
  whose value is \<^verbatim>\<open>undefined\<close> is left out.
\<close>

definition cacheKey :: "string \<Rightarrow> ListOptions \<Rightarrow> string" where
  "cacheKey uid opts =
     JSON_stringify (JObj ([(''userId'', JStr uid), (''limit'', JNum (int (limit opts)))] @
                           (case cursor opts of None \<Rightarrow> [] | Some cur \<Rightarrow> [(''cursor'', cur)])))"


subsection \<open>The collections and the module-level cache\<close>

text \<open>
  The state the service works on: the collection \<^verbatim>\<open>my_list\<close> in insertion order, the
  catalogue collections as lists of \<open>(id, (title, genres))\<close>, and \<^verbatim>\<open>listCache\<close>.
\<close>

record world =
  my_list :: "MyListItem list"
  movies :: "(string \<times> string \<times> string list) list"
  tv_shows :: "(string \<times> string \<times> string list) list"
  listCache :: "ListCacheValue InMemoryCache"

text \<open>
  A persistence call may be rejected for a reason of its own (connection lost, timeout):
  the argument \<open>fault\<close> of an operation says which of its calls, if any, is rejected. A
  rejected call leaves the collections as they were.
\<close>

datatype fault = NoFault | CatalogueRejects | StoreRejects

text \<open>
  \<^verbatim>\<open>MyListItemModel.create\<close> under the unique index \<^verbatim>\<open>{ userId: 1, contentId: 1 }\<close>: the
  store answers a second document for the same pair with error code 11000. Mongoose's
  validation of the document against the schema is not modelled; a document it refuses is
  one of the rejected calls that \<open>fault\<close> stands for.
\<close>

datatype store_error = DuplicateKey | OtherStoreError

definition isDuplicateKeyError :: "store_error \<Rightarrow> bool" where
  "isDuplicateKeyError e = (e = DuplicateKey)"

definition create :: "MyListItem list \<Rightarrow> MyListItem \<Rightarrow> store_error + MyListItem list" where
  "create rows doc =
     (if \<exists>r \<in> set rows. userId r = userId doc \<and> contentId r = contentId doc
      then Inl DuplicateKey
      else Inr (rows @ [doc]))"

text \<open>\<^verbatim>\<open>deleteOne(filter)\<close>: the first matching document goes; the rows left and \<^verbatim>\<open>deletedCount\<close>.\<close>

fun deleteOne :: "(MyListItem \<Rightarrow> bool) \<Rightarrow> MyListItem list \<Rightarrow> MyListItem list \<times> nat" where
  "deleteOne P [] = ([], 0)"
| "deleteOne P (r # rows) =
     (if P r then (rows, 1) else (r # fst (deleteOne P rows), snd (deleteOne P rows)))"

text \<open>
  \<^verbatim>\<open>find(query).sort({ addedAt: -1, contentId: -1 }).limit(n).lean()\<close>: the matching rows by
  \<open>(addedAt, contentId)\<close> descending, strings compared byte by byte, at most \<open>n\<close> of them
  (\<open>n\<close> is positive here).
\<close>

definition sort_key_of :: "MyListItem \<Rightarrow> int \<times> string" where
  "sort_key_of r = (addedAt r, contentId r)"

definition find_sorted :: "(MyListItem \<Rightarrow> bool) \<Rightarrow> nat \<Rightarrow> MyListItem list \<Rightarrow> MyListItem list" where
  "find_sorted P n rows = take n (rev (sort_key sort_key_of (filter P rows)))"

definition toDTO :: "MyListItem \<Rightarrow> MyListItem" where
  "toDTO r = \<lparr>userId = userId r, contentId = contentId r, contentType = contentType r,
              title = title r, genres = genres r, addedAt = addedAt r\<rparr>"

subsection \<open>Add and remove\<close>

definition resolveContentMetadata :: "world \<Rightarrow> string \<Rightarrow> ListableContentKind \<Rightarrow> error + string \<times> string list" where
  "resolveContentMetadata w cid kind =
     (case kind of
        Movie \<Rightarrow>
          (case map_of (movies w) cid of
             None \<Rightarrow> Inl (HttpError (''Movie '' @ cid @ '' not found'') 404 ''movie_not_found'')
           | Some movie \<Rightarrow> Inr movie)
      | TVShow \<Rightarrow>
          (case map_of (tv_shows w) cid of
             None \<Rightarrow> Inl (HttpError (''TV show '' @ cid @ '' not found'') 404 ''show_not_found'')
           | Some show \<Rightarrow> Inr show))"

definition invalidateCacheForUser :: "world \<Rightarrow> string \<Rightarrow> world" where
  "invalidateCacheForUser w uid = w\<lparr>listCache := cache_clear (listCache w)\<rparr>"

text \<open>
  \<^verbatim>\<open>addToMyList\<close> at time \<open>now\<close> (\<^verbatim>\<open>new Date()\<close>): the result, or the error thrown, and the
  state afterwards.
\<close>

definition addToMyList ::
  "world \<Rightarrow> int \<Rightarrow> fault \<Rightarrow> string \<Rightarrow> string \<Rightarrow> ListableContentKind \<Rightarrow> (error + MyListItem) \<times> world" where
  "addToMyList w now fault uid cid kind =
     (case (if fault = CatalogueRejects then Inl StoreError else resolveContentMetadata w cid kind) of
        Inl e \<Rightarrow> (Inl e, w)
      | Inr (the_title, the_genres) \<Rightarrow>
          (let doc = \<lparr>userId = uid, contentId = cid, contentType = kind,
                       title = the_title, genres = the_genres, addedAt = now\<rparr>
           in case (if fault = StoreRejects then Inl OtherStoreError else create (my_list w) doc) of
                Inr rows \<Rightarrow> (Inr (toDTO doc), invalidateCacheForUser (w\<lparr>my_list := rows\<rparr>) uid)
              | Inl e \<Rightarrow>
                  if isDuplicateKeyError e
                  then (Inl (HttpError (''Content '' @ cid @ '' already exists in the user's list'')
                                       409 ''already_in_list''), w)
                  else (Inl StoreError, w)))"

definition removeFromMyList :: "world \<Rightarrow> fault \<Rightarrow> string \<Rightarrow> string \<Rightarrow> (error + unit) \<times> world" where
  "removeFromMyList w fault uid cid =
     (if fault = StoreRejects then (Inl StoreError, w)
      else (let (rows, deletedCount) = deleteOne (\<lambda>r. userId r = uid \<and> contentId r = cid) (my_list w)
            in if deletedCount = 0
               then (Inl (HttpError (''Content '' @ cid @ '' is not in the user's list'')
                                    404 ''not_in_list''), w)
               else (Inr (), invalidateCacheForUser (w\<lparr>my_list := rows\<rparr>) uid)))"

subsection \<open>List\<close>

text \<open>
  The filter of the query. With a cursor, \<^verbatim>\<open>new Date(options.cursor.addedAt)\<close> and
  \<^verbatim>\<open>options.cursor.contentId\<close> become operands of \<^verbatim>\<open>$lt\<close>; Mongoose rejects an invalid date
  and an operand it cannot cast to a string with a \<^verbatim>\<open>CastError\<close> (\<open>None\<close>).
\<close>

definition query_filter :: "platform \<Rightarrow> string \<Rightarrow> json option \<Rightarrow> (MyListItem \<Rightarrow> bool) option" where
  "query_filter env uid cur =
     (case cur of
        None \<Rightarrow> Some (\<lambda>r. userId r = uid)
      | Some c \<Rightarrow>
          if \<not> truthy (Some c) then Some (\<lambda>r. userId r = uid)
          else (case (new_Date env (get_prop c ''addedAt''),
                      castString env (get_prop c ''contentId'')) of
                  (Some bound_date, Some bound_id) \<Rightarrow>
                    Some (\<lambda>r. userId r = uid \<and>
                              (addedAt r < bound_date \<or>
                               (addedAt r = bound_date \<and> contentId r < bound_id)))
                | _ \<Rightarrow> None))"

text \<open>
  The body of \<^verbatim>\<open>listMyList\<close> between the cache lookup and the cache store. With
  \<^verbatim>\<open>limit\<close> 0 and a row in reach, \<^verbatim>\<open>trimmed\<close> is empty and reading \<^verbatim>\<open>.addedAt\<close> of its last
  element throws a \<^verbatim>\<open>TypeError\<close>.
\<close>

definition fetch_page :: "platform \<Rightarrow> MyListItem list \<Rightarrow> string \<Rightarrow> ListOptions \<Rightarrow> error + ListCacheValue" where
  "fetch_page env rows uid opts =
     (case query_filter env uid (cursor opts) of
        None \<Rightarrow> Inl CastError
      | Some query \<Rightarrow>
          (let found = find_sorted query (limit opts + 1) rows;
               hasMore = (length found > limit opts);
               trimmed = (if hasMore then take (limit opts) found else found);
               dtos = map toDTO trimmed
           in if hasMore
              then (if trimmed = [] then Inl TypeError
                    else Inr \<lparr>items = dtos,
                              nextCursor = Some (encodeCursor env
                                (cursor_object (toISOString env (addedAt (last trimmed)))
                                               (contentId (last trimmed))))\<rparr>)
              else Inr \<lparr>items = dtos, nextCursor = None\<rparr>))"

text \<open>
  \<^verbatim>\<open>listMyList\<close>; \<open>clock\<close> is the pair of what \<^verbatim>\<open>Date.now()\<close> returns inside
  \<^verbatim>\<open>listCache.get\<close> and inside \<^verbatim>\<open>listCache.set\<close>. A cached value is an object, hence truthy.
\<close>

definition listMyList ::
  "platform \<Rightarrow> world \<Rightarrow> int \<times> int \<Rightarrow> string \<Rightarrow> ListOptions \<Rightarrow> (error + ListCacheValue) \<times> world" where
  "listMyList env w clock uid opts =
     (let (cachedValue, looked) = cache_get (listCache w) (fst clock) (cacheKey uid opts)
      in case cachedValue of
           Some v \<Rightarrow> (Inr v, w\<lparr>listCache := looked\<rparr>)
         | None \<Rightarrow>
             (case fetch_page env (my_list w) uid opts of
                Inl e \<Rightarrow> (Inl e, w\<lparr>listCache := looked\<rparr>)
              | Inr result \<Rightarrow>
                  (Inr result,
                   w\<lparr>listCache := cache_set looked (snd clock) (cacheKey uid opts) result\<rparr>)))"

section \<open>The list handler (\<^verbatim>\<open>src/controllers/myListController.ts\<close>)\<close>

text \<open>
  A request to \<^verbatim>\<open>GET /api/v1/users/:userId/my-list\<close>: the route parameter and the two query
  parameters when each is given once, as a string.
\<close>

record list_request =
  param_userId :: string
  query_limit :: "string option"
  query_cursor :: "string option"

definition userIdParamSchema_parse :: "string \<Rightarrow> error + string" where
  "userIdParamSchema_parse uid = (if length uid \<ge> 1 then Inr uid else Inl ZodError)"

text \<open>
  \<^verbatim>\<open>listQuerySchema.parse\<close>: \<^verbatim>\<open>Number(value ?? 20)\<close>, then the refinement
  \<^verbatim>\<open>Number.isInteger(value) && value > 0 && value <= 100\<close>, whose failure zod throws as a
  \<^verbatim>\<open>ZodError\<close>.
\<close>

definition listQuerySchema_parse :: "platform \<Rightarrow> list_request \<Rightarrow> error + int \<times> string option" where
  "listQuerySchema_parse env req =
     (case (case query_limit req of None \<Rightarrow> Some 20 | Some s \<Rightarrow> Number_of_string env s) of
        None \<Rightarrow> Inl ZodError
      | Some n \<Rightarrow> if n > 0 \<and> n \<le> 100 then Inr (n, query_cursor req) else Inl ZodError)"

text \<open>
  \<^verbatim>\<open>handleListMyItems\<close> with the error middleware behind it (\<^verbatim>\<open>express-async-errors\<close> hands
  what the handler throws to \<^verbatim>\<open>errorHandler\<close>): the response and the state afterwards. An
  empty \<^verbatim>\<open>cursor\<close> parameter is falsy and counts as none.
\<close>

definition handleListMyItems :: "platform \<Rightarrow> world \<Rightarrow> int \<times> int \<Rightarrow> list_request \<Rightarrow> response \<times> world" where
  "handleListMyItems env w clock req =
     (case userIdParamSchema_parse (param_userId req) of
        Inl e \<Rightarrow> (errorHandler e, w)
      | Inr uid \<Rightarrow>
     (case listQuerySchema_parse env req of
        Inl e \<Rightarrow> (errorHandler e, w)
      | Inr (query_limit_number, query_cursor_string) \<Rightarrow>
     (case (case query_cursor_string of
              None \<Rightarrow> Inr None
            | Some raw \<Rightarrow> if raw = [] then Inr None else map_sum id Some (decodeCursor env raw)) of
        Inl e \<Rightarrow> (errorHandler e, w)
      | Inr cur \<Rightarrow>
          if query_limit_number > 100
          then (errorHandler (HttpError ''limit exceeds maximum of 100'' 400 ''limit_too_large''), w)
          else (case listMyList env w clock uid \<lparr>limit = nat query_limit_number, cursor = cur\<rparr> of
                  (Inl e, w') \<Rightarrow> (errorHandler e, w')
                | (Inr result, w') \<Rightarrow> (\<lparr>status = 200, body = Data_page result\<rparr>, w')))))"


section \<open>Notions used to state the properties\<close>

subsection \<open>Reachable caches\<close>

text \<open>
  What every cache reached from \<open>new_cache\<close> by its four operations satisfies: the keys of
  the store are distinct (it is a \<^verbatim>\<open>Map\<close>), no two entries carry the same recency counter,
  and no counter is ahead of \<^verbatim>\<open>accessCounter\<close>.
\<close>

definition cache_inv :: "'v InMemoryCache \<Rightarrow> bool" where
  "cache_inv c =
     (distinct (map fst (store c)) \<and>
      distinct (map (\<lambda>p. lastAccessCounter (snd p)) (store c)) \<and>
      list_all (\<lambda>p. lastAccessCounter (snd p) \<le> accessCounter c) (store c))"

text \<open>The entry that \<^verbatim>\<open>set(key, value)\<close> writes at time \<open>now\<close>.\<close>

definition entry_for :: "'v InMemoryCache \<Rightarrow> int \<Rightarrow> 'v \<Rightarrow> 'v CacheEntry" where
  "entry_for c now v =
     \<lparr>value = v,
      expiresAt = (if ttlSeconds (options c) > 0
                   then Finite (now + ttlSeconds (options c) * 1000)
                   else PositiveInfinity),
      lastAccessCounter = accessCounter c + 1\<rparr>"

text \<open>A call of one of the public operations, with the time it reads where it reads one.\<close>

datatype 'v cache_op =
    Get int string
  | Set int string 'v
  | Delete string
  | Clear

fun apply_op :: "'v InMemoryCache \<Rightarrow> 'v cache_op \<Rightarrow> 'v InMemoryCache" where
  "apply_op c (Get now key) = snd (cache_get c now key)"
| "apply_op c (Set now key v) = cache_set c now key v"
| "apply_op c (Delete key) = cache_delete c key"
| "apply_op c Clear = cache_clear c"


text \<open>Calls of \<^verbatim>\<open>set\<close> only, one for each \<open>(now, key, value)\<close>, and the keys they insert.\<close>

definition inserts :: "(int \<times> string \<times> 'v) list \<Rightarrow> 'v cache_op list" where
  "inserts ins = map (\<lambda>(now, key, v). Set now key v) ins"

definition fresh_keys :: "(int \<times> string \<times> 'v) list \<Rightarrow> string list" where
  "fresh_keys ins = map (\<lambda>i. fst (snd i)) ins"

subsection \<open>Reading a cache key back\<close>

text \<open>
  The body of a quoted string, the decimal digits, and how a numeral is read back; they
  serve the proof that \<^verbatim>\<open>JSON.stringify\<close> writes distinct values of the type \<open>json\<close> as
  distinct texts, so that a page stored in the cache is found by its own request only. The
  first character of the text of a value
  tells which kind of value it is (\<open>tag\<close>, \<open>tag_of_char\<close>); a text is \<open>terminated\<close> when
  it is followed by a character that is not a digit, as every value inside an array or an
  object is; \<open>member\<close> is the text of one property of an object.
\<close>

definition escaped :: "string \<Rightarrow> string" where
  "escaped s = concat (map escape_char s)"

definition is_digit :: "char \<Rightarrow> bool" where
  "is_digit ch = (48 \<le> (of_char ch :: nat) \<and> (of_char ch :: nat) \<le> 57)"

definition read_digits :: "string \<Rightarrow> nat" where
  "read_digits s = foldl (\<lambda>a ch. 10 * a + (of_char ch - 48)) 0 s"

fun tag :: "json \<Rightarrow> nat" where
  "tag JNull = 0"
| "tag (JBool True) = 1"
| "tag (JBool False) = 2"
| "tag (JNum i) = 3"
| "tag (JStr s) = 4"
| "tag (JArr xs) = 5"
| "tag (JObj props) = 6"

definition tag_of_char :: "char \<Rightarrow> nat" where
  "tag_of_char c =
     (if c = CHR ''n'' then 0 else if c = CHR ''t'' then 1 else if c = CHR ''f'' then 2
      else if c = CHR ''-'' \<or> is_digit c then 3
      else if c = CHR 0x22 then 4 else if c = CHR ''['' then 5
      else if c = CHR ''{'' then 6 else 7)"

definition terminated :: "string \<Rightarrow> bool" where
  "terminated r = (case r of [] \<Rightarrow> False | c # cs \<Rightarrow> \<not> is_digit c)"

definition member :: "string \<times> json \<Rightarrow> string" where
  "member p = QuoteJSONString (fst p) @ '':'' @ JSON_stringify (snd p)"

subsection \<open>Cursors as the service mints them\<close>

text \<open>
  What the properties below need from the platform, stated for the one value concerned:
  decoding base64 gives back the text that was encoded, and \<^verbatim>\<open>JSON.parse\<close> gives back the
  value that \<^verbatim>\<open>JSON.stringify\<close> wrote.
\<close>

definition codec_laws :: "platform \<Rightarrow> json \<Rightarrow> bool" where
  "codec_laws env p =
     (base64_to_utf8 env (utf8_to_base64 env (JSON_stringify p)) = JSON_stringify p \<and>
      JSON_parse env (JSON_stringify p) = Some p)"

text \<open>
  The same for the cursor that points at the row \<open>r\<close>: its token is not the empty string,
  \<^verbatim>\<open>new Date\<close> reads the ISO string of \<^verbatim>\<open>toISOString\<close> back to the same instant, and Mongoose
  leaves a string operand as it is.
\<close>

definition cursor_at :: "platform \<Rightarrow> MyListItem \<Rightarrow> json" where
  "cursor_at env r = cursor_object (toISOString env (addedAt r)) (contentId r)"

definition token_laws :: "platform \<Rightarrow> MyListItem \<Rightarrow> bool" where
  "token_laws env r =
     (codec_laws env (cursor_at env r) \<and>
      encodeCursor env (cursor_at env r) \<noteq> [] \<and>
      toISOString env (addedAt r) \<noteq> [] \<and>
      new_Date env (Some (JStr (toISOString env (addedAt r)))) = Some (addedAt r) \<and>
      castString env (Some (JStr (contentId r))) = Some (contentId r))"

subsection \<open>A cache that agrees with the collection\<close>

text \<open>
  Every cached page is the page the query computes, from the collection as it is now, for
  the request under whose key it is stored. It holds of the empty cache, \<^verbatim>\<open>listMyList\<close>
  keeps it, and add and remove keep it (they clear the cache when they change the
  collection).
\<close>

definition coherent :: "platform \<Rightarrow> world \<Rightarrow> bool" where
  "coherent env w =
     (\<forall>(key, entry) \<in> set (store (listCache w)).
        \<forall>uid opts. cacheKey uid opts = key \<longrightarrow>
          fetch_page env (my_list w) uid opts = Inr (value entry))"

subsection \<open>A client that follows the cursors\<close>

text \<open>
  The client of the pagination property: it calls the list handler without a cursor, then
  with each \<^verbatim>\<open>nextCursor\<close> it is given, until a page comes without one. \<open>clock n\<close> is the
  pair of times the \<open>n\<close>-th call reads; \<open>fuel\<close> bounds the number of calls.
\<close>

datatype run = Done "ListCacheValue list" world | Stopped response world | OutOfFuel

fun paginate ::
  "platform \<Rightarrow> (nat \<Rightarrow> int \<times> int) \<Rightarrow> string \<Rightarrow> string option \<Rightarrow> nat \<Rightarrow> nat \<Rightarrow> world \<Rightarrow> string option \<Rightarrow> run" where
  "paginate env clock uid lim 0 n w token = OutOfFuel"
| "paginate env clock uid lim (Suc fuel) n w token =
     (case handleListMyItems env w (clock n)
             \<lparr>param_userId = uid, query_limit = lim, query_cursor = token\<rparr> of
        (resp, w') \<Rightarrow>
          (case body resp of
             Data_page page \<Rightarrow>
               (case nextCursor page of
                  None \<Rightarrow> Done [page] w'
                | Some next_token \<Rightarrow>
                    (case paginate env clock uid lim fuel (Suc n) w' (Some next_token) of
                       Done pages w'' \<Rightarrow> Done (page # pages) w''
                     | other \<Rightarrow> other))
           | _ \<Rightarrow> Stopped resp w'))"

text \<open>
  The user's rows newest first, the page that starts at position \<open>j\<close> of them, and the
  token a client holds when it has seen the first \<open>j\<close> rows.
\<close>

definition newest_first :: "string \<Rightarrow> MyListItem list \<Rightarrow> MyListItem list" where
  "newest_first uid rows = rev (sort_key sort_key_of (filter (\<lambda>r. userId r = uid) rows))"

definition page_at :: "platform \<Rightarrow> MyListItem list \<Rightarrow> nat \<Rightarrow> nat \<Rightarrow> ListCacheValue" where
  "page_at env sorted_rows n j =
     (if length (drop j sorted_rows) > n
      then \<lparr>items = take n (drop j sorted_rows),
            nextCursor = Some (encodeCursor env (cursor_at env (sorted_rows ! (j + n - 1))))\<rparr>
      else \<lparr>items = drop j sorted_rows, nextCursor = None\<rparr>)"

definition cursor_after :: "platform \<Rightarrow> MyListItem list \<Rightarrow> nat \<Rightarrow> json option" where
  "cursor_after env sorted_rows j =
     (if j = 0 then None else Some (cursor_at env (sorted_rows ! (j - 1))))"

definition token_after :: "platform \<Rightarrow> MyListItem list \<Rightarrow> nat \<Rightarrow> string option" where
  "token_after env sorted_rows j = map_option (encodeCursor env) (cursor_after env sorted_rows j)"

section \<open>Sample data\<close>

text \<open>A cache of capacity 2 with a 30 second TTL, and two short histories of it.\<close>

definition sample_options :: CacheOptions where
  "sample_options = \<lparr>ttlSeconds = 30, maxItems = 2\<rparr>"

definition sample_ops :: "nat cache_op list" where
  "sample_ops = [Set 1000 ''a'' 1, Set 2000 ''b'' 2, Get 3000 ''a'', Set 4000 ''c'' 3]"

definition sample_inserts :: "(int \<times> string \<times> nat) list" where
  "sample_inserts = [(1000, ''a'', 1), (2000, ''b'', 2), (3000, ''c'', 3)]"

text \<open>
  A fragment of the platform: each table row is what Node.js 20 and Mongoose return for
  that argument (the tokens are the base64 of the JSON texts beside them). Outside the
  tables the fragment answers with the failure value, which says nothing about the
  platform; it is used at the tabulated arguments only.
\<close>

definition sample_numbers :: "(string \<times> int) list" where
  "sample_numbers = [(''500'', 500), (''20'', 20), (''2'', 2)]"

definition sample_base64 :: "(string \<times> string) list" where
  \<open>sample_base64 =
     [(''eyJhZGRlZEF0IjoiMjAyNC0wMS0wMVQwMDowMDowMC4wMDBaIiwiY29udGVudElkIjoibW92aWUtMDAxIn0='',
       ''{"addedAt":"2024-01-01T00:00:00.000Z","contentId":"movie-001"}''),
      (''eyJhZGRlZEF0IjoiMjAyNC0wMS0wMVQwMDowMTowMC4wMDBaIiwiY29udGVudElkIjoic2hvdy0wMDEifQ=='',
       ''{"addedAt":"2024-01-01T00:01:00.000Z","contentId":"show-001"}''),
      (''eyJhZGRlZEF0IjoiMjAyNC0wMS0wMVQwMDowMTowMC4wMDBaIiwiY29udGVudElkIjoibW92aWUtMDAyIn0='',
       ''{"addedAt":"2024-01-01T00:01:00.000Z","contentId":"movie-002"}''),
      (''eyJjb250ZW50SWQiOiJtb3ZpZS0wMDEiLCJhZGRlZEF0IjoiMjAyNC0wMS0wMVQwMDowMDowMC4wMDBaIn0='',
       ''{"contentId":"movie-001","addedAt":"2024-01-01T00:00:00.000Z"}''),
      (''eyJhZGRlZEF0IjoxLCJjb250ZW50SWQiOnRydWV9'',
       ''{"addedAt":1,"contentId":true}'')]\<close>

definition sample_json :: "(string \<times> json) list" where
  \<open>sample_json =
     [(''{"addedAt":"2024-01-01T00:00:00.000Z","contentId":"movie-001"}'',
       JObj [(''addedAt'', JStr ''2024-01-01T00:00:00.000Z''), (''contentId'', JStr ''movie-001'')]),
      (''{"addedAt":"2024-01-01T00:01:00.000Z","contentId":"show-001"}'',
       JObj [(''addedAt'', JStr ''2024-01-01T00:01:00.000Z''), (''contentId'', JStr ''show-001'')]),
      (''{"addedAt":"2024-01-01T00:01:00.000Z","contentId":"movie-002"}'',
       JObj [(''addedAt'', JStr ''2024-01-01T00:01:00.000Z''), (''contentId'', JStr ''movie-002'')]),
      (''{"contentId":"movie-001","addedAt":"2024-01-01T00:00:00.000Z"}'',
       JObj [(''contentId'', JStr ''movie-001''), (''addedAt'', JStr ''2024-01-01T00:00:00.000Z'')]),
      (''{"addedAt":1,"contentId":true}'',
       JObj [(''addedAt'', JNum 1), (''contentId'', JBool True)])]\<close>

definition sample_dates :: "(int \<times> string) list" where
  "sample_dates =
     [(1704067200000, ''2024-01-01T00:00:00.000Z''),
      (1704067260000, ''2024-01-01T00:01:00.000Z'')]"

definition node_fragment :: platform where
  "node_fragment =
     \<lparr>Number_of_string = map_of sample_numbers,
      base64_to_utf8 = (\<lambda>s. case map_of sample_base64 s of Some text \<Rightarrow> text | None \<Rightarrow> []),
      utf8_to_base64 =
        (\<lambda>s. case map_of (map (\<lambda>(token, text). (text, token)) sample_base64) s of
               Some token \<Rightarrow> token | None \<Rightarrow> []),
      JSON_parse = map_of sample_json,
      new_Date =
        (\<lambda>v. case v of
               Some (JStr s) \<Rightarrow> map_of (map (\<lambda>(t, stamp). (stamp, t)) sample_dates) s
             | _ \<Rightarrow> None),
      toISOString = (\<lambda>t. case map_of sample_dates t of Some stamp \<Rightarrow> stamp | None \<Rightarrow> []),
      castString = (\<lambda>v. case v of Some (JStr s) \<Rightarrow> Some s | _ \<Rightarrow> None)\<rparr>"

text \<open>
  A small installation: three rows of \<^verbatim>\<open>user-123\<close>, two of them added in the same
  millisecond, one row of another user, the catalogue behind them and an empty cache.
\<close>

definition sample_rows :: "MyListItem list" where
  "sample_rows =
     [\<lparr>userId = ''user-123'', contentId = ''movie-001'', contentType = Movie,
       title = ''Movie One'', genres = [''Action''], addedAt = 1704067200000\<rparr>,
      \<lparr>userId = ''user-123'', contentId = ''show-001'', contentType = TVShow,
       title = ''Show One'', genres = [''SciFi''], addedAt = 1704067260000\<rparr>,
      \<lparr>userId = ''user-456'', contentId = ''movie-001'', contentType = Movie,
       title = ''Movie One'', genres = [''Action''], addedAt = 1704067260000\<rparr>,
      \<lparr>userId = ''user-123'', contentId = ''movie-002'', contentType = Movie,
       title = ''Movie Two'', genres = [], addedAt = 1704067260000\<rparr>]"

definition sample_world :: world where
  "sample_world =
     \<lparr>my_list = sample_rows,
      movies = [(''movie-001'', (''Movie One'', [''Action''])), (''movie-002'', (''Movie Two'', [])),
                (''movie-003'', (''Movie Three'', [''Drama'']))],
      tv_shows = [(''show-001'', (''Show One'', [''SciFi'']))],
      listCache = new_cache \<lparr>ttlSeconds = 30, maxItems = 10000\<rparr>\<rparr>"

definition sample_clock :: "nat \<Rightarrow> int \<times> int" where
  "sample_clock n = (1704070000000 + 10 * int n, 1704070000005 + 10 * int n)"

text \<open>Two tokens for the same position, and a token whose fields are not strings.\<close>

definition token_in_order :: string where
  "token_in_order =
     ''eyJhZGRlZEF0IjoiMjAyNC0wMS0wMVQwMDowMDowMC4wMDBaIiwiY29udGVudElkIjoibW92aWUtMDAxIn0=''"

definition token_reversed :: string where
  "token_reversed =
     ''eyJjb250ZW50SWQiOiJtb3ZpZS0wMDEiLCJhZGRlZEF0IjoiMjAyNC0wMS0wMVQwMDowMDowMC4wMDBaIn0=''"

definition token_not_strings :: string where
  "token_not_strings = ''eyJhZGRlZEF0IjoxLCJjb250ZW50SWQiOnRydWV9''"

definition cursor_in_order :: json where
  "cursor_in_order =
     JObj [(''addedAt'', JStr ''2024-01-01T00:00:00.000Z''), (''contentId'', JStr ''movie-001'')]"

definition cursor_reversed :: json where
  "cursor_reversed =
     JObj [(''contentId'', JStr ''movie-001''), (''addedAt'', JStr ''2024-01-01T00:00:00.000Z'')]"

section \<open>Verification of the cache engine\<close>

subsection \<open>Association lists and the eviction scan\<close>

lemma length_delete_present:
  "distinct (map fst al) \<Longrightarrow> k \<in> fst ` set al \<Longrightarrow> Suc (length (AList.delete k al)) = length al"
proof (induction al)
  case Nil
  then show ?case by simp
next
  case (Cons p al)
  show ?case
  proof (cases "fst p = k")
    case True
    with Cons.prems have "k \<notin> fst ` set al" by auto
    then have "AList.delete k al = al" by (rule AList.delete_id)
    with True show ?thesis by (cases p) simp
  next
    case False
    with Cons show ?thesis by (cases p) auto
  qed
qed

lemma length_update:
  "length (AList.update k v al) = (if k \<in> fst ` set al then length al else Suc (length al))"
  by (induction al) auto

lemma below_trans: "below a lc \<Longrightarrow> b \<le> a \<Longrightarrow> below b lc"
  by (cases lc) auto

lemma not_below_le: "\<not> below a lc \<Longrightarrow> below b lc \<Longrightarrow> b \<le> a"
  by (cases lc) auto

lemma scan_result:
  "lru_scan xs (lk, lc) = (lk', lc') \<Longrightarrow>
     ((lk', lc') = (lk, lc) \<and> list_all (\<lambda>p. \<not> below (lastAccessCounter (snd p)) lc) xs) \<or>
     (\<exists>k e. lk' = Some k \<and> (k, e) \<in> set xs \<and> lc' = Some (lastAccessCounter e) \<and>
            below (lastAccessCounter e) lc \<and>
            list_all (\<lambda>p. lastAccessCounter e \<le> lastAccessCounter (snd p)) xs)"
proof (induction xs arbitrary: lk lc)
  case Nil
  then show ?case by simp
next
  case (Cons p xs)
  obtain k e where p: "p = (k, e)" by (cases p)
  show ?case
  proof (cases "below (lastAccessCounter e) lc")
    case True
    with Cons.prems p have "lru_scan xs (Some k, Some (lastAccessCounter e)) = (lk', lc')" by simp
    from Cons.IH[OF this] show ?thesis
    proof
      assume a: "(lk', lc') = (Some k, Some (lastAccessCounter e)) \<and>
        list_all (\<lambda>p. \<not> below (lastAccessCounter (snd p)) (Some (lastAccessCounter e))) xs"
      then have "list_all (\<lambda>p. lastAccessCounter e \<le> lastAccessCounter (snd p)) xs"
        by (auto simp: list_all_iff not_less)
      with a True p show ?thesis by auto
    next
      assume "\<exists>k' e'. lk' = Some k' \<and> (k', e') \<in> set xs \<and> lc' = Some (lastAccessCounter e') \<and>
          below (lastAccessCounter e') (Some (lastAccessCounter e)) \<and>
          list_all (\<lambda>p. lastAccessCounter e' \<le> lastAccessCounter (snd p)) xs"
      then obtain k' e' where e': "lk' = Some k'" "(k', e') \<in> set xs" "lc' = Some (lastAccessCounter e')"
        "lastAccessCounter e' < lastAccessCounter e"
        "list_all (\<lambda>p. lastAccessCounter e' \<le> lastAccessCounter (snd p)) xs"
        by auto
      have "below (lastAccessCounter e') lc" using True e'(4) by (auto intro: below_trans)
      with e' p show ?thesis by auto
    qed
  next
    case False
    with Cons.prems p have "lru_scan xs (lk, lc) = (lk', lc')" by simp
    from Cons.IH[OF this] show ?thesis
    proof
      assume "(lk', lc') = (lk, lc) \<and> list_all (\<lambda>p. \<not> below (lastAccessCounter (snd p)) lc) xs"
      with False p show ?thesis by simp
    next
      assume "\<exists>k' e'. lk' = Some k' \<and> (k', e') \<in> set xs \<and> lc' = Some (lastAccessCounter e') \<and>
          below (lastAccessCounter e') lc \<and>
          list_all (\<lambda>p. lastAccessCounter e' \<le> lastAccessCounter (snd p)) xs"
      then obtain k' e' where e': "lk' = Some k'" "(k', e') \<in> set xs" "lc' = Some (lastAccessCounter e')"
        "below (lastAccessCounter e') lc"
        "list_all (\<lambda>p. lastAccessCounter e' \<le> lastAccessCounter (snd p)) xs"
        by auto
      have "lastAccessCounter e' \<le> lastAccessCounter e" using False e'(4) by (rule not_below_le)
      with e' p show ?thesis by auto
    qed
  qed
qed

lemma scan_from_start:
  assumes "xs \<noteq> []"
  shows "\<exists>k e. fst (lru_scan xs (None, None)) = Some k \<and> (k, e) \<in> set xs \<and>
            list_all (\<lambda>p. lastAccessCounter e \<le> lastAccessCounter (snd p)) xs"
proof -
  obtain lk' lc' where r: "lru_scan xs (None, None) = (lk', lc')" by (cases "lru_scan xs (None, None)")
  from scan_result[OF r] show ?thesis
  proof
    assume "(lk', lc') = (None, None) \<and> list_all (\<lambda>p. \<not> below (lastAccessCounter (snd p)) None) xs"
    with assms show ?thesis by (cases xs) auto
  next
    assume "\<exists>k e. lk' = Some k \<and> (k, e) \<in> set xs \<and> lc' = Some (lastAccessCounter e) \<and>
            below (lastAccessCounter e) None \<and>
            list_all (\<lambda>p. lastAccessCounter e \<le> lastAccessCounter (snd p)) xs"
    with r show ?thesis by auto
  qed
qed



subsection \<open>The invariant of reachable caches\<close>

lemma update_subset: "set (AList.update k v al) \<subseteq> insert (k, v) (set al)"
  by (induction al) auto

lemma distinct_map_update:
  "distinct (map g al) \<Longrightarrow> g (k, v) \<notin> g ` set al \<Longrightarrow> distinct (map g (AList.update k v al))"
proof (induction al)
  case Nil
  then show ?case by simp
next
  case (Cons p al)
  show ?case
  proof (cases "fst p = k")
    case True
    with Cons.prems show ?thesis by auto
  next
    case False
    have "g p \<notin> g ` set (AList.update k v al)"
    proof
      assume "g p \<in> g ` set (AList.update k v al)"
      then have "g p \<in> g ` insert (k, v) (set al)" using update_subset[of k v al] by blast
      with Cons.prems show False by auto
    qed
    with False Cons show ?thesis by auto
  qed
qed

lemma distinct_map_delete: "distinct (map g al) \<Longrightarrow> distinct (map g (AList.delete k al))"
  by (simp add: AList.delete_eq distinct_map_filter)

lemma list_all_update: "list_all P al \<Longrightarrow> P (k, v) \<Longrightarrow> list_all P (AList.update k v al)"
  by (induction al) auto

lemma list_all_delete: "list_all P al \<Longrightarrow> list_all P (AList.delete k al)"
  by (simp add: AList.delete_eq list_all_iff)

lemma fresh_counter:
  "list_all (\<lambda>p. lastAccessCounter (snd p) \<le> n) al \<Longrightarrow>
   Suc n \<notin> (\<lambda>p. lastAccessCounter (snd p)) ` set al"
  by (auto simp: list_all_iff)

lemma list_all_mono_counter:
  "list_all (\<lambda>p. lastAccessCounter (snd p) \<le> n) al \<Longrightarrow>
   list_all (\<lambda>p. lastAccessCounter (snd p) \<le> Suc n) (al :: (string \<times> 'v CacheEntry) list)"
  by (auto simp: list_all_iff)

lemma cache_inv_new: "cache_inv (new_cache opts)"
  by (simp add: cache_inv_def new_cache_def)

lemma cache_inv_delete_store:
  "cache_inv c \<Longrightarrow> cache_inv (c\<lparr>store := AList.delete k (store c)\<rparr>)"
  by (simp add: cache_inv_def AList.distinct_delete distinct_map_delete list_all_delete)

lemma cache_inv_touch:
  assumes "cache_inv c" and "lastAccessCounter e = Suc (accessCounter c)"
  shows "cache_inv (c\<lparr>store := AList.update k e (store c), accessCounter := Suc (accessCounter c)\<rparr>)"
proof -
  from assms(1) have d: "distinct (map fst (store c))"
    and dc: "distinct (map (\<lambda>p. lastAccessCounter (snd p)) (store c))"
    and le: "list_all (\<lambda>p. lastAccessCounter (snd p) \<le> accessCounter c) (store c)"
    by (simp_all add: cache_inv_def)
  have "distinct (map (\<lambda>p. lastAccessCounter (snd p)) (AList.update k e (store c)))"
    using dc fresh_counter[OF le] assms(2) by (intro distinct_map_update) simp_all
  moreover have "list_all (\<lambda>p. lastAccessCounter (snd p) \<le> Suc (accessCounter c))
                   (AList.update k e (store c))"
    using list_all_mono_counter[OF le] assms(2) by (intro list_all_update) simp_all
  ultimately show ?thesis using d by (simp add: cache_inv_def AList.distinct_update)
qed

lemma cache_inv_enforce: "cache_inv c \<Longrightarrow> cache_inv (enforceMaxItems c)"
  by (auto simp: enforceMaxItems_def cache_inv_delete_store split: option.splits)

lemma cache_inv_get: "cache_inv c \<Longrightarrow> cache_inv (snd (cache_get c now k))"
  by (auto simp: cache_get_def cache_inv_delete_store cache_inv_touch split: option.splits)

lemma cache_inv_set: "cache_inv c \<Longrightarrow> cache_inv (cache_set c now k v)"
  by (simp add: cache_set_def Let_def cache_inv_enforce cache_inv_touch)

lemma cache_inv_delete: "cache_inv c \<Longrightarrow> cache_inv (cache_delete c k)"
  by (simp add: cache_delete_def cache_inv_delete_store)

lemma cache_inv_clear: "cache_inv (cache_clear c)"
  by (simp add: cache_clear_def cache_inv_def)

lemma cache_inv_apply: "cache_inv c \<Longrightarrow> cache_inv (apply_op c operation)"
  by (cases operation) (simp_all add: cache_inv_get cache_inv_set cache_inv_delete cache_inv_clear)

lemma cache_inv_reachable: "cache_inv c \<Longrightarrow> cache_inv (foldl apply_op c ops)"
  by (induction ops arbitrary: c) (simp_all add: cache_inv_apply)

subsection \<open>The options never change\<close>

lemma options_enforce: "options (enforceMaxItems c) = options c"
  by (simp add: enforceMaxItems_def split: option.splits)

lemma options_apply: "options (apply_op c operation) = options c"
  by (cases operation)
     (simp_all add: cache_get_def cache_set_def cache_delete_def cache_clear_def Let_def
        options_enforce split: option.splits)

lemma options_reachable: "options (foldl apply_op c ops) = options c"
  by (induction ops arbitrary: c) (simp_all add: options_apply)

subsection \<open>The capacity bound\<close>

lemma enforce_bound:
  assumes "distinct (map fst (store c))" and "length (store c) \<le> Suc (maxItems (options c))"
  shows "length (store (enforceMaxItems c)) \<le> maxItems (options c)"
proof (cases "length (store c) \<le> maxItems (options c)")
  case True
  then show ?thesis by (simp add: enforceMaxItems_def)
next
  case False
  then have "store c \<noteq> []" by auto
  from scan_from_start[OF this] obtain k e where
    k: "fst (lru_scan (store c) (None, None)) = Some k" "(k, e) \<in> set (store c)" by blast
  then have "k \<in> fst ` set (store c)" by force
  from length_delete_present[OF assms(1) this] assms(2) False k(1)
  show ?thesis by (simp add: enforceMaxItems_def)
qed

lemma cache_set_unfold:
  "cache_set c now k v =
     enforceMaxItems (c\<lparr>store := AList.update k (entry_for c now v) (store c),
                        accessCounter := accessCounter c + 1\<rparr>)"
  by (simp add: cache_set_def entry_for_def Let_def)

lemma set_bound:
  assumes "cache_inv c" and "length (store c) \<le> maxItems (options c)"
  shows "length (store (cache_set c now k v)) \<le> maxItems (options c)"
proof -
  let ?c' = "c\<lparr>store := AList.update k (entry_for c now v) (store c),
              accessCounter := accessCounter c + 1\<rparr>"
  from assms(1) have "distinct (map fst (store ?c'))"
    by (simp add: cache_inv_def AList.distinct_update)
  moreover have "length (store ?c') \<le> Suc (maxItems (options ?c'))"
    using assms(2) by (simp add: length_update)
  ultimately have "length (store (enforceMaxItems ?c')) \<le> maxItems (options ?c')"
    by (rule enforce_bound)
  then show ?thesis by (simp add: cache_set_unfold)
qed

lemma apply_bound:
  assumes "cache_inv c" and "length (store c) \<le> maxItems (options c)"
  shows "length (store (apply_op c operation)) \<le> maxItems (options c)"
proof (cases operation)
  case (Get now k)
  have "length (AList.delete k (store c)) \<le> length (store c)" by (rule AList.length_delete_le)
  with assms(2) Get show ?thesis
    by (auto simp: cache_get_def length_update map_of_eq_None_iff split: option.splits
             dest!: map_of_SomeD intro: rev_image_eqI)
next
  case (Set now k v)
  with assms show ?thesis by (simp add: set_bound)
next
  case (Delete k)
  have "length (AList.delete k (store c)) \<le> length (store c)" by (rule AList.length_delete_le)
  with assms(2) Delete show ?thesis by (simp add: cache_delete_def)
next
  case Clear
  then show ?thesis by (simp add: cache_clear_def)
qed

lemma reachable_bound:
  "cache_inv c \<Longrightarrow> length (store c) \<le> maxItems (options c) \<Longrightarrow>
   length (store (foldl apply_op c ops)) \<le> maxItems (options c)"
proof (induction ops arbitrary: c)
  case Nil
  then show ?case by simp
next
  case (Cons operation ops)
  have "length (store (foldl apply_op (apply_op c operation) ops))
          \<le> maxItems (options (apply_op c operation))"
    using Cons.prems by (intro Cons.IH cache_inv_apply) (simp_all add: options_apply apply_bound)
  then show ?case by (simp add: options_apply)
qed

lemma overwrite_keeps:
  assumes "length (store c) \<le> maxItems (options c)" and "k \<in> fst ` set (store c)"
  shows "map fst (store (cache_set c now k v)) = map fst (store c)"
proof -
  have "map fst (AList.update k e (store c)) = map fst (store c)" for e
    using assms(2) by (simp add: AList.update_keys)
  moreover have "length (AList.update k e (store c)) = length (store c)" for e
    using assms(2) by (simp add: length_update)
  ultimately show ?thesis using assms(1)
    by (simp add: cache_set_def Let_def enforceMaxItems_def)
qed

lemmas cache_eval = new_cache_def cache_get_def cache_set_def cache_delete_def cache_clear_def
  enforceMaxItems_def sample_options_def sample_ops_def Let_def inserts_def entry_for_def

lemma sample_run:
  "foldl apply_op (new_cache sample_options) sample_ops =
     \<lparr>store = [(''a'', \<lparr>value = 1, expiresAt = Finite 31000, lastAccessCounter = 3\<rparr>),
               (''c'', \<lparr>value = 3, expiresAt = Finite 34000, lastAccessCounter = 4\<rparr>)],
      options = sample_options, accessCounter = 4\<rparr>"
  by (simp add: cache_eval)

text \<open>
  \<^bold>\<open>C9.\<close> Whatever sequence of \<^verbatim>\<open>get\<close>, \<^verbatim>\<open>set\<close>, \<^verbatim>\<open>delete\<close> and \<^verbatim>\<open>clear\<close> calls a new cache has
  gone through, its store holds at most \<^verbatim>\<open>maxItems\<close> entries (for any capacity, so also for
  every capacity of at least 1). A \<^verbatim>\<open>set\<close> on a key that is present keeps the keys of the
  store as they are: the store does not grow and nothing is evicted.
\<close>

theorem cache_size_bounded:
  assumes "c = foldl apply_op (new_cache opts) ops"
  shows "length (store c) \<le> maxItems opts \<and>
         (key \<in> fst ` set (store c) \<longrightarrow>
            map fst (store (cache_set c now key v)) = map fst (store c) \<and>
            length (store (cache_set c now key v)) = length (store c))"
proof -
  have b: "length (store c) \<le> maxItems (options (new_cache opts :: 'a InMemoryCache))"
    unfolding assms by (intro reachable_bound cache_inv_new) (simp add: new_cache_def)
  then have b': "length (store c) \<le> maxItems opts" by (simp add: new_cache_def)
  have o: "options c = opts" unfolding assms by (simp add: options_reachable new_cache_def)
  show ?thesis
  proof (intro conjI impI)
    show "length (store c) \<le> maxItems opts" by (rule b')
  next
    assume k: "key \<in> fst ` set (store c)"
    from b' o have "length (store c) \<le> maxItems (options c)" by simp
    from overwrite_keeps[OF this k]
    show m: "map fst (store (cache_set c now key v)) = map fst (store c)" .
    from arg_cong[OF m, of length] show "length (store (cache_set c now key v)) = length (store c)"
      by simp
  qed
qed

theorem cache_size_bounded_witness:
  "length (store (foldl apply_op (new_cache sample_options) sample_ops)) \<le> maxItems sample_options \<and>
   ''c'' \<in> fst ` set (store (foldl apply_op (new_cache sample_options) sample_ops)) \<and>
   map fst (store (cache_set (foldl apply_op (new_cache sample_options) sample_ops) 5000 ''c'' 7)) = [''a'', ''c'']"
  using cache_size_bounded[OF refl, where opts = sample_options and ops = sample_ops
          and key = "''c''" and now = 5000 and v = 7]
  unfolding sample_run by (simp add: sample_options_def)

subsection \<open>Expiry\<close>

lemma other_key:
  assumes "distinct (map fst xs)" and "2 \<le> length xs"
  shows "\<exists>p \<in> set xs. fst p \<noteq> k"
proof -
  from assms(2) obtain a b rest where xs: "xs = a # b # rest"
    by (cases xs; cases "tl xs") auto
  with assms(1) have "fst a \<noteq> fst b" by auto
  then have "fst a \<noteq> k \<or> fst b \<noteq> k" by auto
  with xs show ?thesis by auto
qed

lemma set_keeps_fresh_entry:
  assumes inv: "cache_inv c" and cap: "1 \<le> maxItems (options c)"
  shows "map_of (store (cache_set c now k v)) k = Some (entry_for c now v)"
proof -
  define e where "e = entry_for c now v"
  let ?al = "AList.update k e (store c)"
  let ?c' = "c\<lparr>store := ?al, accessCounter := accessCounter c + 1\<rparr>"
  have set_eq: "cache_set c now k v = enforceMaxItems ?c'"
    by (simp add: cache_set_unfold e_def)
  have cnt: "lastAccessCounter e = accessCounter c + 1" by (simp add: e_def entry_for_def)
  have here: "map_of ?al k = Some e" by (simp add: AList.update_conv')
  from inv have d: "distinct (map fst ?al)" by (simp add: cache_inv_def AList.distinct_update)
  from inv have le: "list_all (\<lambda>p. lastAccessCounter (snd p) \<le> accessCounter c) (store c)"
    by (simp add: cache_inv_def)
  have "map_of (store (enforceMaxItems ?c')) k = Some e"
  proof (cases "length ?al \<le> maxItems (options c)")
    case True
    with here show ?thesis by (simp add: enforceMaxItems_def)
  next
    case False
    with cap have two: "2 \<le> length ?al" by simp
    then have "?al \<noteq> []" by auto
    from scan_from_start[OF this] obtain k' e' where
      k': "fst (lru_scan ?al (None, None)) = Some k'" "(k', e') \<in> set ?al"
        "list_all (\<lambda>p. lastAccessCounter e' \<le> lastAccessCounter (snd p)) ?al" by blast
    have "k' \<noteq> k"
    proof
      assume "k' = k"
      with k'(2) d here have "e' = e" by (metis map_of_is_SomeI option.inject)
      from other_key[OF d two, of k] obtain p where p: "p \<in> set ?al" "fst p \<noteq> k" by blast
      with update_subset[of k e "store c"] have "p \<in> set (store c)" by (cases p) auto
      with le have "lastAccessCounter (snd p) \<le> accessCounter c" by (simp add: list_all_iff)
      moreover from k'(3) p(1) have "lastAccessCounter e' \<le> lastAccessCounter (snd p)"
        by (simp add: list_all_iff)
      ultimately show False using \<open>e' = e\<close> cnt by simp
    qed
    with here False k'(1) show ?thesis by (simp add: enforceMaxItems_def)
  qed
  then show ?thesis by (simp add: set_eq e_def)
qed

lemma options_set: "options (cache_set c now k v) = options c"
  by (simp add: cache_set_unfold options_enforce)

text \<open>
  \<^bold>\<open>C7.\<close> In a cache of capacity at least 1 reached from a new one, \<^verbatim>\<open>set(key, v)\<close> at time
  \<open>t0\<close> with \<^verbatim>\<open>ttlSeconds = T > 0\<close> leaves an entry for \<open>key\<close> that expires at \<open>t0 + T * 1000\<close>;
  a \<^verbatim>\<open>get\<close> at a time \<open>t\<close> up to that instant returns \<open>v\<close>, and a \<^verbatim>\<open>get\<close> after it returns
  \<^verbatim>\<open>undefined\<close> and deletes the entry. With \<^verbatim>\<open>ttlSeconds = 0\<close> the expiry is \<^verbatim>\<open>+Infinity\<close> and
  \<^verbatim>\<open>get\<close> returns \<open>v\<close> at any time.
\<close>

theorem ttl_expiry:
  assumes "c = foldl apply_op (new_cache opts) ops"
    and "1 \<le> maxItems opts"
    and "c' = cache_set c t0 key v"
  shows "(0 < ttlSeconds opts \<longrightarrow>
            map_option expiresAt (map_of (store c') key) = Some (Finite (t0 + ttlSeconds opts * 1000)) \<and>
            (t \<le> t0 + ttlSeconds opts * 1000 \<longrightarrow> fst (cache_get c' t key) = Some v) \<and>
            (t > t0 + ttlSeconds opts * 1000 \<longrightarrow>
               fst (cache_get c' t key) = None \<and>
               store (snd (cache_get c' t key)) = AList.delete key (store c') \<and>
               map_of (store (snd (cache_get c' t key))) key = None)) \<and>
         (ttlSeconds opts = 0 \<longrightarrow>
            map_option expiresAt (map_of (store c') key) = Some PositiveInfinity \<and>
            fst (cache_get c' t key) = Some v)"
proof -
  have o: "options c = opts" unfolding assms(1) by (simp add: options_reachable new_cache_def)
  have inv: "cache_inv c" unfolding assms(1) by (intro cache_inv_reachable cache_inv_new)
  have o': "options c' = opts" by (simp add: assms(3) options_set o)
  from assms(2) o have cap: "1 \<le> maxItems (options c)" by simp
  have entry: "map_of (store c') key = Some (entry_for c t0 v)"
    using set_keeps_fresh_entry[OF inv cap] by (simp add: assms(3))
  show ?thesis
    by (simp add: entry cache_get_def o' o AList.delete_conv' entry_for_def)
qed

theorem ttl_expiry_witness:
  "1 \<le> maxItems sample_options \<and> 0 < ttlSeconds sample_options \<and>
   fst (cache_get (cache_set (foldl apply_op (new_cache sample_options) sample_ops) 5000 ''d'' 4) 35000 ''d'') = Some 4 \<and>
   fst (cache_get (cache_set (foldl apply_op (new_cache sample_options) sample_ops) 5000 ''d'' 4) 35001 ''d'') = None"
  using ttl_expiry[OF refl _ refl, where opts = sample_options and ops = sample_ops
          and t = 35000 and ?t0.0 = 5000 and key = "''d''" and v = 4]
        ttl_expiry[OF refl _ refl, where opts = sample_options and ops = sample_ops
          and t = 35001 and ?t0.0 = 5000 and key = "''d''" and v = 4]
  by (simp add: sample_options_def)

subsection \<open>Least recently used eviction\<close>

lemma update_append: "k \<notin> fst ` set al \<Longrightarrow> AList.update k v al = al @ [(k, v)]"
  by (induction al) auto

lemma evict_lowest:
  assumes "cache_inv c0" and "key \<notin> fst ` set (store c0)"
    and "length (store c0) = maxItems (options c0)"
    and "al = store c0 @ [(key, entry_for c0 now v)]"
  shows "\<exists>lruKey e. (lruKey, e) \<in> set al \<and>
            (\<forall>p \<in> set al. lastAccessCounter e \<le> lastAccessCounter (snd p)) \<and>
            store (cache_set c0 now key v) = AList.delete lruKey al \<and>
            length (store (cache_set c0 now key v)) = maxItems (options c0)"
proof -
  have "al \<noteq> []" by (simp add: assms(4))
  from scan_from_start[OF this] obtain k e where
    k: "fst (lru_scan al (None, None)) = Some k" "(k, e) \<in> set al"
       "list_all (\<lambda>p. lastAccessCounter e \<le> lastAccessCounter (snd p)) al" by blast
  have len: "length al = Suc (maxItems (options c0))" by (simp add: assms(3,4))
  have upd: "AList.update key (entry_for c0 now v) (store c0) = al"
    by (simp add: update_append[OF assms(2)] assms(4))
  have st: "store (cache_set c0 now key v) = AList.delete k al"
    using k(1) len by (simp add: cache_set_unfold upd enforceMaxItems_def)
  have d: "distinct (map fst al)" using assms(1,2) by (auto simp: assms(4) cache_inv_def)
  from k(2) have "k \<in> fst ` set al" by force
  from length_delete_present[OF d this] len
  have "length (AList.delete k al) = maxItems (options c0)" by simp
  with st k show ?thesis by (auto simp: list_all_iff)
qed

lemma map_of_update_other: "k' \<noteq> k \<Longrightarrow> map_of (AList.update k v al) k' = map_of al k'"
  by (simp add: AList.update_conv')

lemma keys_update: "fst ` set (AList.update k v al) = insert k (fst ` set al)"
  by (simp add: AList.dom_update)

lemma keys_delete: "fst ` set (AList.delete k al) = fst ` set al - {k}"
  by (auto simp: AList.delete_eq image_iff)

lemma entry_of_key:
  "distinct (map fst al) \<Longrightarrow> (k, e) \<in> set al \<Longrightarrow> map_of al k = Some e"
  by (rule map_of_is_SomeI)

text \<open>A store with distinct keys that is longer than a set of keys is big has a key outside it.\<close>

lemma key_outside:
  assumes "distinct (map fst al)" and "finite K" and "card K < length al"
  shows "\<exists>p \<in> set al. fst p \<notin> K"
proof (rule ccontr)
  assume "\<not> (\<exists>p \<in> set al. fst p \<notin> K)"
  then have "set (map fst al) \<subseteq> K" by auto
  with assms(2) have "card (set (map fst al)) \<le> card K" by (simp add: card_mono)
  moreover from assms(1) have "card (set (map fst al)) = length al"
    by (metis distinct_card length_map)
  ultimately show False using assms(3) by simp
qed

lemma inserted_survive:
  assumes "cache_inv c0" and "length (store c0) \<le> maxItems (options c0)"
    and "distinct (fresh_keys ins)" and "length ins \<le> maxItems (options c0)"
    and "c = foldl apply_op c0 (inserts ins)"
  shows "cache_inv c \<and> options c = options c0 \<and> length (store c) \<le> maxItems (options c0) \<and>
         accessCounter c = accessCounter c0 + length ins \<and>
         set (fresh_keys ins) \<subseteq> fst ` set (store c) \<and>
         (\<forall>p \<in> set (store c). if fst p \<in> set (fresh_keys ins)
                               then accessCounter c0 < lastAccessCounter (snd p)
                               else lastAccessCounter (snd p) \<le> accessCounter c0) \<and>
         (ins \<noteq> [] \<longrightarrow> (\<exists>e. (hd (fresh_keys ins), e) \<in> set (store c) \<and>
                                 lastAccessCounter e = accessCounter c0 + 1))"
  using assms(3,4,5)
proof (induction ins arbitrary: c rule: rev_induct)
  case Nil
  with assms(1,2) show ?case
    by (auto simp: inserts_def fresh_keys_def cache_inv_def list_all_iff)
next
  case (snoc i ins)
  obtain now k v where i: "i = (now, k, v)" by (cases i)
  define c1 where "c1 = foldl apply_op c0 (inserts ins)"
  define K where "K = set (fresh_keys ins)"
  from snoc.prems have d: "distinct (fresh_keys ins)" and knew: "k \<notin> K"
    and len: "Suc (length ins) \<le> maxItems (options c0)"
    by (simp_all add: fresh_keys_def i K_def)
  from snoc.IH[OF d _ c1_def] len
  have inv: "cache_inv c1" and o: "options c1 = options c0"
    and bound: "length (store c1) \<le> maxItems (options c0)"
    and ac: "accessCounter c1 = accessCounter c0 + length ins"
    and sub: "K \<subseteq> fst ` set (store c1)"
    and cnt: "\<forall>p \<in> set (store c1). if fst p \<in> K
                               then accessCounter c0 < lastAccessCounter (snd p)
                               else lastAccessCounter (snd p) \<le> accessCounter c0"
    and first: "ins \<noteq> [] \<longrightarrow> (\<exists>e. (hd (fresh_keys ins), e) \<in> set (store c1) \<and>
                                 lastAccessCounter e = accessCounter c0 + 1)"
    by (simp_all add: K_def)
  have c: "c = cache_set c1 now k v" by (simp add: snoc.prems(3) c1_def i inserts_def)
  define e where "e = entry_for c1 now v"
  define U where "U = AList.update k e (store c1)"
  define c2 where "c2 = c1\<lparr>store := U, accessCounter := accessCounter c1 + 1\<rparr>"
  have c': "c = enforceMaxItems c2" by (simp add: c cache_set_unfold c2_def U_def e_def)
  have e_cnt: "lastAccessCounter e = accessCounter c0 + length ins + 1"
    by (simp add: e_def entry_for_def ac)
  have inv2: "cache_inv c2"
    using cache_inv_touch[OF inv, of e k] by (simp add: c2_def U_def e_def entry_for_def)
  then have dU: "distinct (map fst U)" by (simp add: cache_inv_def c2_def)
  have keysU: "fst ` set U = insert k (fst ` set (store c1))" by (simp add: U_def keys_update)
  have K': "set (fresh_keys (ins @ [i])) = insert k K" by (simp add: fresh_keys_def i K_def)
  have cntU: "\<forall>p \<in> set U. if fst p \<in> insert k K
                               then accessCounter c0 < lastAccessCounter (snd p)
                               else lastAccessCounter (snd p) \<le> accessCounter c0"
  proof
    fix p assume pU: "p \<in> set U"
    show "if fst p \<in> insert k K
                               then accessCounter c0 < lastAccessCounter (snd p)
                               else lastAccessCounter (snd p) \<le> accessCounter c0"
    proof (cases "fst p = k")
      case True
      have "map_of U k = Some e" by (simp add: U_def AList.update_conv')
      moreover from pU True have "(k, snd p) \<in> set U" by (cases p) auto
      ultimately have "snd p = e" using dU by (simp add: entry_of_key)
      with True e_cnt show ?thesis by simp
    next
      case False
      with pU update_subset[of k e "store c1"] have "p \<in> set (store c1)"
        unfolding U_def by (cases p) auto
      with cnt False show ?thesis by auto
    qed
  qed
  have firstU: "\<exists>e'. (hd (fresh_keys (ins @ [i])), e') \<in> set U \<and>
                     lastAccessCounter e' = accessCounter c0 + 1"
  proof (cases "ins = []")
    case True
    have "(k, e) \<in> set U" unfolding U_def by (simp add: map_of_SomeD AList.update_conv')
    with True e_cnt show ?thesis by (auto simp: fresh_keys_def i)
  next
    case False
    with first obtain e1 where e1: "(hd (fresh_keys ins), e1) \<in> set (store c1)"
      "lastAccessCounter e1 = accessCounter c0 + 1" by blast
    from False have "fresh_keys ins \<noteq> []" by (simp add: fresh_keys_def)
    then have "hd (fresh_keys ins) \<in> K" unfolding K_def by (rule hd_in_set)
    with knew have "hd (fresh_keys ins) \<noteq> k" by auto
    with e1(1) inv have "map_of U (hd (fresh_keys ins)) = Some e1"
      by (simp add: U_def map_of_update_other entry_of_key cache_inv_def)
    then have "(hd (fresh_keys ins), e1) \<in> set U" by (rule map_of_SomeD)
    with e1(2) False show ?thesis by (auto simp: fresh_keys_def)
  qed
  show ?case
  proof (cases "length U \<le> maxItems (options c0)")
    case True
    then have "c = c2" by (simp add: c' enforceMaxItems_def c2_def o)
    with inv2 True sub keysU cntU firstU show ?thesis
      by (auto simp: c2_def o ac K'[unfolded K_def] K_def)
  next
    case False
    then have "U \<noteq> []" by auto
    from scan_from_start[OF this] obtain lru el where
      lru: "fst (lru_scan U (None, None)) = Some lru" "(lru, el) \<in> set U"
        "list_all (\<lambda>p. lastAccessCounter el \<le> lastAccessCounter (snd p)) U" by blast
    have fin: "finite (insert k K)" by (simp add: K_def)
    have "card K = length (fresh_keys ins)" unfolding K_def using d by (rule distinct_card)
    then have "card (insert k K) = Suc (length ins)"
      using knew by (simp add: K_def fresh_keys_def)
    with False len have "card (insert k K) < length U" by simp
    from key_outside[OF dU fin this] obtain p where p: "p \<in> set U" "fst p \<notin> insert k K" by blast
    with cntU have "lastAccessCounter (snd p) \<le> accessCounter c0" by auto
    moreover from lru(3) p(1) have "lastAccessCounter el \<le> lastAccessCounter (snd p)"
      by (simp add: list_all_iff)
    ultimately have "lastAccessCounter el \<le> accessCounter c0" by simp
    with cntU lru(2) have out: "lru \<notin> insert k K" by force
    have st: "store c = AList.delete lru U"
      using False lru(1) by (simp add: c' enforceMaxItems_def c2_def o)
    have cfull: "c = c2\<lparr>store := AList.delete lru U\<rparr>"
      using False lru(1) by (simp add: c' enforceMaxItems_def c2_def o)
    have "cache_inv c" unfolding c' using inv2 by (rule cache_inv_enforce)
    moreover have "length (store c) \<le> maxItems (options c0)"
      using enforce_bound[of c2] dU bound
      by (simp add: c' c2_def o U_def length_update split: if_splits)
    moreover have "set (fresh_keys (ins @ [i])) \<subseteq> fst ` set (store c)"
      using sub out by (auto simp: st keys_delete keysU K')
    moreover have "\<forall>p \<in> set (store c). if fst p \<in> set (fresh_keys (ins @ [i]))
                               then accessCounter c0 < lastAccessCounter (snd p)
                               else lastAccessCounter (snd p) \<le> accessCounter c0"
      using cntU by (auto simp: st K' AList.delete_eq)
    moreover have "\<exists>e'. (hd (fresh_keys (ins @ [i])), e') \<in> set (store c) \<and>
                     lastAccessCounter e' = accessCounter c0 + 1"
    proof -
      from firstU obtain e' where e': "(hd (fresh_keys (ins @ [i])), e') \<in> set U"
        "lastAccessCounter e' = accessCounter c0 + 1" by blast
      have "fresh_keys (ins @ [i]) \<noteq> []" by (simp add: fresh_keys_def)
      then have "hd (fresh_keys (ins @ [i])) \<in> set (fresh_keys (ins @ [i]))" by (rule hd_in_set)
      then have "hd (fresh_keys (ins @ [i])) \<in> insert k K" by (simp only: K')
      with out have "hd (fresh_keys (ins @ [i])) \<noteq> lru" by auto
      with e' show ?thesis by (auto simp: st AList.delete_eq)
    qed
    ultimately show ?thesis by (simp add: cfull c2_def o ac)
  qed
qed



lemma tl_keys: "distinct xs \<Longrightarrow> xs \<noteq> [] \<Longrightarrow> set (tl xs) = set xs - {hd xs}"
  by (cases xs) auto

lemma overflow_evicts_first:
  assumes inv0: "cache_inv c0" and bound0: "length (store c0) \<le> maxItems (options c0)"
    and dist: "distinct (fresh_keys ins)" and len: "length ins = maxItems (options c0) + 1"
    and c: "c = foldl apply_op c0 (inserts ins)"
  shows "fst ` set (store c) = set (tl (fresh_keys ins)) \<and>
         length (store c) = maxItems (options c0)"
proof -
  from len obtain i front where ins: "ins = front @ [i]" by (cases ins rule: rev_cases) auto
  obtain now k v where i: "i = (now, k, v)" by (cases i)
  define c1 where "c1 = foldl apply_op c0 (inserts front)"
  define K where "K = set (fresh_keys front)"
  define h where "h = hd (fresh_keys ins)"
  from dist ins i have d: "distinct (fresh_keys front)" and knew: "k \<notin> K"
    by (simp_all add: fresh_keys_def K_def)
  from len ins have lenf: "length front = maxItems (options c0)" by simp
  from inserted_survive[OF inv0 bound0 d _ c1_def] lenf
  have inv: "cache_inv c1" and o: "options c1 = options c0"
    and bound: "length (store c1) \<le> maxItems (options c0)"
    and ac: "accessCounter c1 = accessCounter c0 + length front"
    and sub: "K \<subseteq> fst ` set (store c1)"
    and cnt: "\<forall>p \<in> set (store c1). if fst p \<in> K
                               then accessCounter c0 < lastAccessCounter (snd p)
                               else lastAccessCounter (snd p) \<le> accessCounter c0"
    and first: "front \<noteq> [] \<longrightarrow> (\<exists>e. (hd (fresh_keys front), e) \<in> set (store c1) \<and>
                                 lastAccessCounter e = accessCounter c0 + 1)"
    by (simp_all add: K_def)
  from inv have d1: "distinct (map fst (store c1))" by (simp add: cache_inv_def)
  have "card K = length (fresh_keys front)" unfolding K_def using d by (rule distinct_card)
  then have cardK: "card K = length front" by (simp add: fresh_keys_def)
  have "card (fst ` set (store c1)) = length (store c1)"
    using d1 by (metis distinct_card length_map set_map)
  with bound cardK lenf have "card (fst ` set (store c1)) \<le> card K" by simp
  with sub have keys1: "fst ` set (store c1) = K" by (intro card_seteq[symmetric]) simp_all
  then have len1: "length (store c1) = maxItems (options c0)"
    using \<open>card (fst ` set (store c1)) = length (store c1)\<close> cardK lenf by simp
  define e where "e = entry_for c1 now v"
  define U where "U = store c1 @ [(k, e)]"
  have upd: "AList.update k e (store c1) = U"
    using knew keys1 by (simp add: U_def update_append)
  define c2 where "c2 = c1\<lparr>store := U, accessCounter := accessCounter c1 + 1\<rparr>"
  have "c = cache_set c1 now k v" by (simp add: c ins i inserts_def c1_def)
  then have c': "c = enforceMaxItems c2"
    by (simp add: cache_set_unfold c2_def upd[symmetric] e_def)
  have e_cnt: "lastAccessCounter e = accessCounter c0 + length front + 1"
    by (simp add: e_def entry_for_def ac)
  have "lastAccessCounter e = Suc (accessCounter c1)" by (simp add: e_def entry_for_def)
  from cache_inv_touch[OF inv this, of k] have inv2: "cache_inv c2"
    by (simp add: c2_def upd)
  then have dU: "distinct (map fst U)"
    and dcU: "distinct (map (\<lambda>p. lastAccessCounter (snd p)) U)"
    by (simp_all add: cache_inv_def c2_def)
  have lenU: "length U = Suc (maxItems (options c0))" by (simp add: U_def len1)
  have low1: "\<forall>p \<in> set (store c1). accessCounter c0 < lastAccessCounter (snd p)"
  proof
    fix p assume p: "p \<in> set (store c1)"
    then have "fst p \<in> K" using keys1 by auto
    with cnt p show "accessCounter c0 < lastAccessCounter (snd p)" by auto
  qed
  have lowU: "\<forall>p \<in> set U. accessCounter c0 < lastAccessCounter (snd p)"
    using low1 e_cnt by (auto simp: U_def)
  have hU: "\<exists>eh. (h, eh) \<in> set U \<and> lastAccessCounter eh = accessCounter c0 + 1"
  proof (cases "front = []")
    case True
    then show ?thesis using e_cnt by (auto simp: h_def ins i fresh_keys_def U_def)
  next
    case False
    with first obtain e1 where "(hd (fresh_keys front), e1) \<in> set (store c1)"
      "lastAccessCounter e1 = accessCounter c0 + 1" by blast
    moreover from False have "h = hd (fresh_keys front)" by (simp add: h_def ins fresh_keys_def)
    ultimately show ?thesis by (auto simp: U_def)
  qed
  then obtain eh where eh: "(h, eh) \<in> set U" "lastAccessCounter eh = accessCounter c0 + 1" by blast
  have "U \<noteq> []" by (simp add: U_def)
  from scan_from_start[OF this] obtain lru el where
    lru: "fst (lru_scan U (None, None)) = Some lru" "(lru, el) \<in> set U"
      "list_all (\<lambda>p. lastAccessCounter el \<le> lastAccessCounter (snd p)) U" by blast
  from lru(3) eh have "lastAccessCounter el \<le> accessCounter c0 + 1" by (auto simp: list_all_iff)
  moreover from lowU lru(2) have "accessCounter c0 < lastAccessCounter el" by auto
  ultimately have eqc: "(\<lambda>p. lastAccessCounter (snd p)) (lru, el)
                       = (\<lambda>p. lastAccessCounter (snd p)) (h, eh)"
    using eh(2) by simp
  from dcU have inj: "inj_on (\<lambda>p. lastAccessCounter (snd p)) (set U)"
    by (simp add: distinct_map)
  from inj_onD[OF inj eqc lru(2) eh(1)] have "(lru, el) = (h, eh)" .
  then have lru_h: "lru = h" by simp
  have st: "store c = AList.delete h U"
    using lru(1) lenU by (simp add: c' enforceMaxItems_def c2_def o lru_h)
  have keysU: "fst ` set U = set (fresh_keys ins)"
    using keys1 by (auto simp: U_def K_def ins i fresh_keys_def)
  have ne: "fresh_keys ins \<noteq> []" by (simp add: ins fresh_keys_def)
  have "fst ` set (store c) = set (tl (fresh_keys ins))"
    by (simp add: st keys_delete keysU tl_keys[OF dist ne] h_def)
  moreover have "h \<in> fst ` set U" using eh(1) by force
  from length_delete_present[OF dU this] lenU have "length (store c) = maxItems (options c0)"
    by (simp add: st)
  ultimately show ?thesis by simp
qed


text \<open>
  \<^bold>\<open>C8.\<close> Take a new cache, or any cache reached from a new one, and call \<^verbatim>\<open>set\<close> on it
  \<^verbatim>\<open>maxItems + 1\<close> times, with distinct keys and nothing else in between. Then the store
  holds exactly the keys inserted after the first: \<^verbatim>\<open>maxItems\<close> keys, and the key inserted
  first is absent. And whenever such a cache is full, a \<^verbatim>\<open>set\<close> of a new key removes one
  entry, whose recency counter is the lowest of all (the new entry included), and leaves
  \<^verbatim>\<open>maxItems\<close> entries.
\<close>

theorem lru_bound:
  assumes "c0 = foldl apply_op (new_cache opts) ops"
    and "distinct (fresh_keys ins)" and "length ins = maxItems opts + 1"
    and "c = foldl apply_op c0 (inserts ins)"
  shows "(fst ` set (store c) = set (tl (fresh_keys ins)) \<and>
          length (store c) = maxItems opts \<and>
          hd (fresh_keys ins) \<notin> fst ` set (store c) \<and>
          fst (cache_get c t (hd (fresh_keys ins))) = None) \<and>
         (\<forall>key now v al.
            key \<notin> fst ` set (store c0) \<and> length (store c0) = maxItems opts \<and>
            al = store c0 @ [(key, entry_for c0 now v)] \<longrightarrow>
            (\<exists>lruKey e. (lruKey, e) \<in> set al \<and>
               (\<forall>p \<in> set al. lastAccessCounter e \<le> lastAccessCounter (snd p)) \<and>
               store (cache_set c0 now key v) = AList.delete lruKey al \<and>
               length (store (cache_set c0 now key v)) = maxItems opts))"
proof
  have o: "options c0 = opts" by (simp add: assms(1) options_reachable new_cache_def)
  have inv: "cache_inv c0" unfolding assms(1) by (intro cache_inv_reachable cache_inv_new)
  have bound: "length (store c0) \<le> maxItems (options c0)"
    using reachable_bound[OF cache_inv_new, of opts ops] by (simp add: assms(1) new_cache_def options_reachable)
  from overflow_evicts_first[OF inv bound assms(2) _ assms(4)] assms(3) o
  have keys: "fst ` set (store c) = set (tl (fresh_keys ins))"
    and len: "length (store c) = maxItems opts" by simp_all
  have "hd (fresh_keys ins) \<notin> set (tl (fresh_keys ins))"
    using assms(2,3) by (cases ins) (auto simp: fresh_keys_def)
  with keys have absent: "hd (fresh_keys ins) \<notin> fst ` set (store c)" by simp
  then have "map_of (store c) (hd (fresh_keys ins)) = None" by (simp add: map_of_eq_None_iff)
  then have "fst (cache_get c t (hd (fresh_keys ins))) = None" by (simp add: cache_get_def)
  with keys len absent
  show "fst ` set (store c) = set (tl (fresh_keys ins)) \<and>
          length (store c) = maxItems opts \<and>
          hd (fresh_keys ins) \<notin> fst ` set (store c) \<and>
          fst (cache_get c t (hd (fresh_keys ins))) = None" by simp
next
  have o: "options c0 = opts" by (simp add: assms(1) options_reachable new_cache_def)
  have inv: "cache_inv c0" unfolding assms(1) by (intro cache_inv_reachable cache_inv_new)
  show "\<forall>key now v al.
            key \<notin> fst ` set (store c0) \<and> length (store c0) = maxItems opts \<and>
            al = store c0 @ [(key, entry_for c0 now v)] \<longrightarrow>
            (\<exists>lruKey e. (lruKey, e) \<in> set al \<and>
               (\<forall>p \<in> set al. lastAccessCounter e \<le> lastAccessCounter (snd p)) \<and>
               store (cache_set c0 now key v) = AList.delete lruKey al \<and>
               length (store (cache_set c0 now key v)) = maxItems opts)"
  proof (intro allI impI, elim conjE)
    fix key now v al
    assume a: "key \<notin> fst ` set (store c0)" "length (store c0) = maxItems opts"
      "al = store c0 @ [(key, entry_for c0 now v)]"
    from evict_lowest[OF inv a(1), where al = al and v = v and now = now] a(2,3) o
    show "\<exists>lruKey e. (lruKey, e) \<in> set al \<and>
            (\<forall>p \<in> set al. lastAccessCounter e \<le> lastAccessCounter (snd p)) \<and>
            store (cache_set c0 now key v) = AList.delete lruKey al \<and>
            length (store (cache_set c0 now key v)) = maxItems opts"
      by simp
  qed
qed

theorem lru_bound_witness:
  "distinct (fresh_keys sample_inserts) \<and>
   length sample_inserts = maxItems sample_options + 1 \<and>
   fst ` set (store (foldl apply_op (new_cache sample_options) (inserts sample_inserts)))
     = {''b'', ''c''} \<and>
   length (store (foldl apply_op (new_cache sample_options) (inserts sample_inserts))) = 2 \<and>
   fst (cache_get (foldl apply_op (new_cache sample_options) (inserts sample_inserts)) 3500 ''a'')
     = None \<and>
   fst ` set (store (foldl apply_op (foldl apply_op (new_cache sample_options) sample_ops)
                      (inserts sample_inserts))) = {''b'', ''c''} \<and>
   ''d'' \<notin> fst ` set (store (foldl apply_op (new_cache sample_options) sample_ops)) \<and>
   length (store (foldl apply_op (new_cache sample_options) sample_ops)) = maxItems sample_options \<and>
   length (store (cache_set (foldl apply_op (new_cache sample_options) sample_ops) 5000 ''d'' 4))
     = maxItems sample_options \<and>
   map fst (store (cache_set (foldl apply_op (new_cache sample_options) sample_ops) 5000 ''d'' 4))
     = [''c'', ''d'']"
proof -
  have 1: "distinct (fresh_keys sample_inserts)" by (simp add: sample_inserts_def fresh_keys_def)
  have 2: "length sample_inserts = maxItems sample_options + 1"
    by (simp add: sample_inserts_def sample_options_def)
  have 3: "''d'' \<notin> fst ` set (store (foldl apply_op (new_cache sample_options) sample_ops))"
    by (simp add: sample_run)
  have 4: "length (store (foldl apply_op (new_cache sample_options) sample_ops)) = maxItems sample_options"
    unfolding sample_run by (simp add: sample_options_def)
  have 5: "map fst (store (cache_set (foldl apply_op (new_cache sample_options) sample_ops) 5000 ''d'' 4)) = [''c'', ''d'']"
    unfolding sample_run by (simp add: cache_set_def enforceMaxItems_def sample_options_def)
  have 6: "new_cache sample_options = foldl apply_op (new_cache sample_options) []" by simp
  note fresh = lru_bound[OF 6 1 2 refl, where t = 3500, THEN conjunct1]
  note used = lru_bound[OF refl 1 2 refl, where ops = sample_ops and t = 3500, THEN conjunct1]
  note full = lru_bound[OF refl 1 2 refl, where ops = sample_ops, THEN conjunct2, rule_format,
      OF conjI[OF 3 conjI[OF 4 refl]], where now = 5000 and v = 4]
  then have 7: "length (store (cache_set (foldl apply_op (new_cache sample_options) sample_ops) 5000 ''d'' 4))
     = maxItems sample_options" by blast
  from fresh used 1 2 3 4 5 7
  show ?thesis by (simp add: sample_inserts_def fresh_keys_def insert_commute sample_options_def)
qed

section \<open>Verification of the cursor codec and the cache key\<close>

subsection \<open>Quoted strings can be read back\<close>

lemma hex_digit_inj: "m < 16 \<Longrightarrow> n < 16 \<Longrightarrow> hex_digit m = hex_digit n \<Longrightarrow> m = n"
  unfolding hex_digit_def
  by (subst (asm) nth_eq_iff_index_eq) simp_all

lemma escape_char_head: "\<exists>x xs. escape_char c = x # xs \<and> x \<noteq> CHR 0x22"
  by (simp add: escape_char_def)

lemma low_char_eq:
  assumes "(of_char c :: nat) < 32" and "(of_char c' :: nat) < 32"
    and "hex_digit (of_char c div 16) = hex_digit (of_char c' div 16)"
    and "hex_digit (of_char c mod 16) = hex_digit (of_char c' mod 16)"
  shows "c = c'"
proof -
  have "(of_char c :: nat) div 16 = of_char c' div 16"
    using assms(1,2,3) by (intro hex_digit_inj) simp_all
  moreover have "(of_char c :: nat) mod 16 = of_char c' mod 16"
    using assms(4) by (intro hex_digit_inj) simp_all
  ultimately have "(of_char c :: nat) = of_char c'"
    by (metis div_mult_mod_eq)
  then show ?thesis by simp
qed

lemma escape_char_shape:
  "(escape_char c = [c] \<and> c \<noteq> CHR 0x5C) \<or>
   (\<exists>x. escape_char c = [CHR 0x5C, x] \<and> x \<noteq> CHR ''u'') \<or>
   (escape_char c = [CHR 0x5C, CHR ''u'', CHR ''0'', CHR ''0'',
            hex_digit (of_char c div 16), hex_digit (of_char c mod 16)] \<and> (of_char c :: nat) < 32)"
  by (simp add: escape_char_def)

lemma escape_char_prefix_free:
  assumes "escape_char c @ r = escape_char c' @ r'"
  shows "c = c' \<and> r = r'"
proof -
  consider (plain) "escape_char c = [c]" "c \<noteq> CHR 0x5C"
    | (short) x where "escape_char c = [CHR 0x5C, x]" "x \<noteq> CHR ''u''"
    | (long) "escape_char c = [CHR 0x5C, CHR ''u'', CHR ''0'', CHR ''0'',
            hex_digit (of_char c div 16), hex_digit (of_char c mod 16)]" "(of_char c :: nat) < 32"
    using escape_char_shape[of c] by blast
  note c = this
  consider (plain') "escape_char c' = [c']" "c' \<noteq> CHR 0x5C"
    | (short') x' where "escape_char c' = [CHR 0x5C, x']" "x' \<noteq> CHR ''u''"
    | (long') "escape_char c' = [CHR 0x5C, CHR ''u'', CHR ''0'', CHR ''0'',
            hex_digit (of_char c' div 16), hex_digit (of_char c' mod 16)]" "(of_char c' :: nat) < 32"
    using escape_char_shape[of c'] by blast
  note c' = this
  have short_inj: "c = c'" if "escape_char c = [CHR 0x5C, x]" "escape_char c' = [CHR 0x5C, x]" for x
    using that by (auto simp: escape_char_def split: if_splits)
  show ?thesis
  proof (cases rule: c)
    case plain
    then show ?thesis using assms by (cases rule: c') auto
  next
    case (short x)
    then show ?thesis using assms short_inj by (cases rule: c') auto
  next
    case long
    then show ?thesis using assms low_char_eq by (cases rule: c') auto
  qed
qed

lemma escaped_simps: "escaped [] = []" "escaped (c # s) = escape_char c @ escaped s"
  by (simp_all add: escaped_def)

lemma escaped_until_quote:
  "escaped s @ CHR 0x22 # r = escaped s' @ CHR 0x22 # r' \<Longrightarrow> s = s' \<and> r = r'"
proof (induction s arbitrary: s')
  case Nil
  show ?case
  proof (cases s')
    case Nil
    with Nil.prems show ?thesis by (simp add: escaped_simps)
  next
    case (Cons c' t')
    obtain x xs where "escape_char c' = x # xs" "x \<noteq> CHR 0x22"
      using escape_char_head by blast
    with Nil.prems Cons show ?thesis by (simp add: escaped_simps)
  qed
next
  case (Cons c t)
  show ?case
  proof (cases s')
    case Nil
    obtain x xs where "escape_char c = x # xs" "x \<noteq> CHR 0x22"
      using escape_char_head by blast
    with Cons.prems Nil show ?thesis by (simp add: escaped_simps)
  next
    case (Cons c' t')
    with Cons.prems have "escape_char c @ (escaped t @ CHR 0x22 # r)
        = escape_char c' @ (escaped t' @ CHR 0x22 # r')"
      by (simp add: escaped_simps)
    from escape_char_prefix_free[OF this] Cons.IH[of t'] Cons show ?thesis by simp
  qed
qed

lemma QuoteJSONString_escaped: "QuoteJSONString s = CHR 0x22 # escaped s @ [CHR 0x22]"
  by (simp add: QuoteJSONString_def escaped_def)

subsection \<open>Decimal numerals can be read back\<close>

lemma of_char_digit: "n < 10 \<Longrightarrow> (of_char (char_of (48 + n)) :: nat) = 48 + n"
  by (simp add: of_char_of)

lemma digits_are_digits: "list_all is_digit (digits n)"
proof (induction n rule: digits.induct)
  case (1 n)
  show ?case
  proof (cases "n < 10")
    case True
    then show ?thesis by (subst digits.simps) (simp add: is_digit_def of_char_digit)
  next
    case False
    have "n mod 10 < 10" by simp
    then have "is_digit (char_of (48 + n mod 10))"
      unfolding is_digit_def by (subst (1 2) of_char_digit) simp_all
    with False 1 show ?thesis
      by (subst digits.simps) simp
  qed
qed

lemma read_digits_snoc: "read_digits (s @ [ch]) = 10 * read_digits s + (of_char ch - 48)"
  by (simp add: read_digits_def)

lemma read_digits_digits: "read_digits (digits n) = n"
proof (induction n rule: digits.induct)
  case (1 n)
  show ?case
  proof (cases "n < 10")
    case True
    then show ?thesis by (subst digits.simps) (simp add: read_digits_def of_char_digit)
  next
    case False
    with 1 have "read_digits (digits (n div 10)) = n div 10" by simp
    with False show ?thesis
      by (subst digits.simps) (simp add: read_digits_snoc of_char_digit)
  qed
qed

lemma digits_until_other:
  assumes "digits m @ x # r = digits n @ y # r'" and "\<not> is_digit x" and "\<not> is_digit y"
  shows "m = n \<and> x # r = y # r'"
proof -
  have "takeWhile is_digit (digits k @ z # t) = digits k" if "\<not> is_digit z" for k z t
    using that digits_are_digits[of k] by (simp add: takeWhile_append2 list_all_iff)
  from this[OF assms(2), of m r] this[OF assms(3), of n r'] assms(1)
  have "digits m = digits n" by simp
  then have "read_digits (digits m) = read_digits (digits n)" by simp
  then have "m = n" by (simp add: read_digits_digits)
  with assms(1) show ?thesis by simp
qed

subsection \<open>\<^verbatim>\<open>JSON.stringify\<close> writes distinct values as distinct texts\<close>

text \<open>
  The lemmas of this subsection are about the values of the type \<open>json\<close>, whose numbers are
  integers. They serve the invariant \<open>coherent\<close> only. A JavaScript value that holds an
  infinity is written like the value that holds \<^verbatim>\<open>null\<close> in its place, so nothing is
  concluded here about cursors that hold such a number.
\<close>

lemma digits_head: "\<exists>c cs. digits n = c # cs \<and> is_digit c"
  using digits_are_digits[of n]
  by (cases "digits n") (auto simp: list_all_iff digits.simps[of n] split: if_splits)

lemma is_digit_tag: "is_digit c \<Longrightarrow> tag_of_char c = 3"
  by (auto simp: tag_of_char_def is_digit_def)

lemma head_tag: "\<exists>c cs. JSON_stringify j = c # cs \<and> tag_of_char c = tag j"
proof (cases j)
  case (JBool b)
  then show ?thesis by (cases b) (simp_all add: tag_of_char_def is_digit_def)
next
  case (JNum i)
  obtain c cs where d: "digits (nat \<bar>i\<bar>) = c # cs" "is_digit c"
    using digits_head by blast
  show ?thesis
  proof (cases "i < 0")
    case True
    with JNum show ?thesis by (simp add: NumberToString_def tag_of_char_def)
  next
    case False
    then have "nat \<bar>i\<bar> = nat i" by simp
    with d False JNum show ?thesis by (simp add: NumberToString_def is_digit_tag)
  qed
qed (simp_all add: tag_of_char_def is_digit_def QuoteJSONString_def)

lemma same_tag:
  assumes "JSON_stringify j @ r = JSON_stringify j' @ r'"
  shows "tag j = tag j'"
proof -
  obtain c cs where 1: "JSON_stringify j = c # cs" "tag_of_char c = tag j"
    using head_tag by blast
  obtain c' cs' where 2: "JSON_stringify j' = c' # cs'" "tag_of_char c' = tag j'"
    using head_tag by blast
  from assms 1(1) 2(1) have "c = c'" by simp
  with 1(2) 2(2) show ?thesis by simp
qed

lemma tag_cases:
  "tag j = 0 \<longleftrightarrow> j = JNull" "tag j = 1 \<longleftrightarrow> j = JBool True" "tag j = 2 \<longleftrightarrow> j = JBool False"
  "tag j = 3 \<longleftrightarrow> (\<exists>i. j = JNum i)" "tag j = 4 \<longleftrightarrow> (\<exists>s. j = JStr s)"
  "tag j = 5 \<longleftrightarrow> (\<exists>xs. j = JArr xs)" "tag j = 6 \<longleftrightarrow> (\<exists>ps. j = JObj ps)"
  by (cases j rule: tag.cases; simp)+

lemma head_not_closing:
  "JSON_stringify j @ r \<noteq> CHR '']'' # r'" "JSON_stringify j @ r \<noteq> CHR ''}'' # r'"
  "JSON_stringify j @ r \<noteq> CHR '','' # r'"
proof -
  obtain c cs where 1: "JSON_stringify j = c # cs" "tag_of_char c = tag j"
    using head_tag by blast
  have "tag j \<noteq> 7" by (cases j rule: tag.cases) simp_all
  with 1 have "c \<noteq> CHR '']''" "c \<noteq> CHR ''}''" "c \<noteq> CHR '',''"
    by (auto simp: tag_of_char_def is_digit_def)
  with 1(1) show "JSON_stringify j @ r \<noteq> CHR '']'' # r'" "JSON_stringify j @ r \<noteq> CHR ''}'' # r'"
    "JSON_stringify j @ r \<noteq> CHR '','' # r'" by simp_all
qed

lemma join_Cons: "join sep (x # xs) = x @ (if xs = [] then [] else sep @ join sep xs)"
  by (cases xs) simp_all

lemma number_until_other:
  assumes "NumberToString i @ r = NumberToString i' @ r'" and "terminated r" and "terminated r'"
  shows "i = i' \<and> r = r'"
proof -
  from assms(2) obtain x t where r: "r = x # t" "\<not> is_digit x"
    by (cases r) (auto simp: terminated_def)
  from assms(3) obtain y t' where r': "r' = y # t'" "\<not> is_digit y"
    by (cases r') (auto simp: terminated_def)
  have minus: "\<not> is_digit (CHR ''-'')" by (simp add: is_digit_def)
  obtain c cs where d: "digits (nat i) = c # cs" "is_digit c" using digits_head by blast
  obtain c' cs' where d': "digits (nat i') = c' # cs'" "is_digit c'" using digits_head by blast
  show ?thesis
  proof (cases "i < 0"; cases "i' < 0")
    assume neg: "i < 0" "i' < 0"
    with assms(1) have "digits (nat (- i)) @ x # t = digits (nat (- i')) @ y # t'"
      by (simp add: NumberToString_def r r')
    from digits_until_other[OF this r(2) r'(2)] have "nat (- i) = nat (- i')" "x # t = y # t'"
      by simp_all
    with neg show ?thesis by (simp add: r r'; linarith?)
  next
    assume "i < 0" "\<not> i' < 0"
    with assms(1) d' minus show ?thesis by (auto simp: NumberToString_def)
  next
    assume "\<not> i < 0" "i' < 0"
    with assms(1) d minus show ?thesis by (auto simp: NumberToString_def)
  next
    assume pos: "\<not> i < 0" "\<not> i' < 0"
    with assms(1) have "digits (nat i) @ x # t = digits (nat i') @ y # t'"
      by (simp add: NumberToString_def r r')
    from digits_until_other[OF this r(2) r'(2)] have "nat i = nat i'" "x # t = y # t'"
      by simp_all
    with pos show ?thesis by (simp add: r r'; linarith?)
  qed
qed

lemma stringify_obj:
  "JSON_stringify (JObj props) = ''{'' @ join '','' (map member props) @ ''}''"
  by (simp add: member_def[abs_def] map_prod_def case_prod_beta comp_def)

lemma terminated_simps:
  "terminated (CHR '','' # r)" "terminated (CHR '']'' # r)" "terminated (CHR ''}'' # r)"
  by (simp_all add: terminated_def is_digit_def)

lemma sequence_inj:
  fixes f :: "'a \<Rightarrow> string" and close :: char
  assumes item: "\<And>x y t t'. x \<in> set xs \<Longrightarrow> terminated t \<Longrightarrow> terminated t' \<Longrightarrow>
                   f x @ t = f y @ t' \<Longrightarrow> x = y \<and> t = t'"
    and head: "\<And>x t t'. f x @ t \<noteq> close # t'"
    and close: "terminated [close]" "close \<noteq> CHR '',''"
    and eq: "join '','' (map f xs) @ close # r = join '','' (map f ys) @ close # r'"
  shows "xs = ys \<and> r = r'"
  using item eq
proof (induction xs arbitrary: ys)
  case Nil
  show ?case
  proof (cases ys)
    case Nil
    with Nil.prems(2) show ?thesis by simp
  next
    case (Cons y ys')
    with Nil.prems(2) head[of y "(if ys' = [] then [] else '','' @ join '','' (map f ys')) @ close # r'" r]
    show ?thesis by (simp add: join_Cons)
  qed
next
  case (Cons x xs')
  have tm: "terminated (close # t)" for t using close(1) by (simp add: terminated_def)
  show ?case
  proof (cases ys)
    case Nil
    with Cons.prems(2) head[of x "(if xs' = [] then [] else '','' @ join '','' (map f xs')) @ close # r" r']
    show ?thesis by (simp add: join_Cons)
  next
    case (Cons y ys')
    define t where "t = (if xs' = [] then [] else '','' @ join '','' (map f xs')) @ close # r"
    define t' where "t' = (if ys' = [] then [] else '','' @ join '','' (map f ys')) @ close # r'"
    have tt: "terminated t" "terminated t'"
      using tm by (simp_all add: t_def t'_def terminated_simps)
    from Cons.prems(2) Cons have "f x @ t = f y @ t'"
      by (simp add: join_Cons t_def t'_def)
    from Cons.prems(1)[OF _ tt this] have xy: "x = y" and rest: "t = t'" by simp_all
    show ?thesis
    proof (cases "xs' = []"; cases "ys' = []")
      assume "xs' = []" "ys' = []"
      with rest xy Cons show ?thesis by (simp add: t_def t'_def)
    next
      assume "xs' = []" "ys' \<noteq> []"
      with rest close(2) show ?thesis by (simp add: t_def t'_def)
    next
      assume "xs' \<noteq> []" "ys' = []"
      with rest close(2) show ?thesis by (simp add: t_def t'_def)
    next
      assume "xs' \<noteq> []" "ys' \<noteq> []"
      with rest have "join '','' (map f xs') @ close # r = join '','' (map f ys') @ close # r'"
        by (simp add: t_def t'_def)
      moreover have "\<And>x y t t'. x \<in> set xs' \<Longrightarrow> terminated t \<Longrightarrow> terminated t' \<Longrightarrow>
                   f x @ t = f y @ t' \<Longrightarrow> x = y \<and> t = t'"
        using Cons.prems(1) by (meson list.set_intros(2))
      ultimately have "xs' = ys' \<and> r = r'" by (rule Cons.IH[rotated])
      with xy Cons show ?thesis by simp
    qed
  qed
qed

lemma member_head: "member p @ t \<noteq> CHR ''}'' # t'"
  by (simp add: member_def QuoteJSONString_escaped)

lemma stringify_until_other:
  "terminated r \<Longrightarrow> terminated r' \<Longrightarrow> JSON_stringify j @ r = JSON_stringify j' @ r'
     \<Longrightarrow> j = j' \<and> r = r'"
proof (induction j arbitrary: j' r r')
  case JNull
  from same_tag[OF JNull.prems(3)] have "j' = JNull" by (simp add: tag_cases[symmetric])
  with JNull.prems(3) show ?case by simp
next
  case (JBool b)
  from same_tag[OF JBool.prems(3)] have "j' = JBool b"
    by (cases b) (simp_all add: tag_cases[symmetric])
  with JBool.prems(3) show ?case by simp
next
  case (JNum i)
  from same_tag[OF JNum.prems(3)] obtain i' where j': "j' = JNum i'"
    using tag_cases(4)[of j'] by auto
  with JNum.prems(3) have "NumberToString i @ r = NumberToString i' @ r'" by simp
  from number_until_other[OF this JNum.prems(1,2)] j' show ?case by simp
next
  case (JStr s)
  from same_tag[OF JStr.prems(3)] obtain s' where j': "j' = JStr s'"
    using tag_cases(5)[of j'] by auto
  with JStr.prems(3) have "escaped s @ CHR 0x22 # r = escaped s' @ CHR 0x22 # r'"
    by (simp add: QuoteJSONString_escaped)
  from escaped_until_quote[OF this] j' show ?case by simp
next
  case (JArr xs)
  from same_tag[OF JArr.prems(3)] obtain ys where j': "j' = JArr ys"
    using tag_cases(6)[of j'] by auto
  with JArr.prems(3)
  have eq: "join '','' (map JSON_stringify xs) @ CHR '']'' # r
          = join '','' (map JSON_stringify ys) @ CHR '']'' # r'" by simp
  have "xs = ys \<and> r = r'"
  proof (rule sequence_inj[where f = JSON_stringify and close = "CHR '']''", OF _ _ _ _ eq])
    fix x y t t'
    assume "x \<in> set xs" "terminated t" "terminated t'" "JSON_stringify x @ t = JSON_stringify y @ t'"
    then show "x = y \<and> t = t'" using JArr.IH by blast
  next
    fix x t t'
    show "JSON_stringify x @ t \<noteq> CHR '']'' # t'" by (rule head_not_closing)
  qed (simp_all add: terminated_simps)
  with j' show ?case by simp
next
  case (JObj props)
  from same_tag[OF JObj.prems(3)] obtain props' where j': "j' = JObj props'"
    using tag_cases(7)[of j'] by auto
  with JObj.prems(3)
  have eq: "join '','' (map member props) @ CHR ''}'' # r
          = join '','' (map member props') @ CHR ''}'' # r'"
    by (simp only: stringify_obj) simp
  have "props = props' \<and> r = r'"
  proof (rule sequence_inj[where f = member and close = "CHR ''}''", OF _ _ _ _ eq])
    fix p q t t'
    assume p: "p \<in> set props" and t: "terminated t" "terminated t'"
      and m: "member p @ t = member q @ t'"
    from m have "escaped (fst p) @ CHR 0x22 # (CHR '':'' # JSON_stringify (snd p) @ t)
               = escaped (fst q) @ CHR 0x22 # (CHR '':'' # JSON_stringify (snd q) @ t')"
      by (simp add: member_def QuoteJSONString_escaped)
    from escaped_until_quote[OF this]
    have names: "fst p = fst q" and v: "JSON_stringify (snd p) @ t = JSON_stringify (snd q) @ t'"
      by simp_all
    have "snd p \<in> Basic_BNFs.snds p" by (cases p) simp
    from JObj.IH[OF p this t v] names show "p = q \<and> t = t'" by (simp add: prod_eq_iff)
  next
    fix p t t'
    show "member p @ t \<noteq> CHR ''}'' # t'" by (rule member_head)
  qed (simp_all add: terminated_simps)
  with j' show ?case by simp
qed

lemma JSON_stringify_inj: "JSON_stringify j = JSON_stringify j' \<Longrightarrow> j = j'"
  using stringify_until_other[of "''}''" "''}''" j j'] by (simp add: terminated_simps)

lemma cacheKey_inj:
  assumes "cacheKey uid opts = cacheKey uid' opts'"
  shows "uid = uid' \<and> opts = opts'"
  using JSON_stringify_inj[OF assms[unfolded cacheKey_def]]
  by (auto split: option.splits)

lemmas fragment_eval =
  node_fragment_def sample_numbers_def sample_base64_def sample_json_def sample_dates_def

subsection \<open>Codec\<close>

lemma decodeCursor_result:
  "decodeCursor env raw =
     (case JSON_parse env (base64_to_utf8 env raw) of
        None \<Rightarrow> Inl invalid_cursor
      | Some parsed \<Rightarrow>
          if truthy (get_prop parsed ''addedAt'') \<and> truthy (get_prop parsed ''contentId'')
          then Inr parsed else Inl invalid_cursor)"
  by (auto simp: decodeCursor_def Let_def split: option.splits)

lemma decode_encode:
  assumes "codec_laws env p" and "truthy (get_prop p ''addedAt'')" and "truthy (get_prop p ''contentId'')"
  shows "decodeCursor env (encodeCursor env p) = Inr p"
  using assms by (simp add: decodeCursor_result encodeCursor_def codec_laws_def)

lemma cursor_object_props:
  "get_prop (cursor_object a c) ''addedAt'' = Some (JStr a)"
  "get_prop (cursor_object a c) ''contentId'' = Some (JStr c)"
  by (simp_all add: cursor_object_def)




text \<open>
  \<^bold>\<open>C5.\<close> \<^verbatim>\<open>decodeCursor\<close> rejects a token whose text is not JSON and a parsed value whose
  \<^verbatim>\<open>addedAt\<close> or \<^verbatim>\<open>contentId\<close> is missing or falsy (\<open>decodeCursor_result\<close>), but it tests
  truthiness only. The token \<^verbatim>\<open>eyJhZGRlZEF0IjoxLCJjb250ZW50SWQiOnRydWV9\<close> is the base64 of
  \<^verbatim>\<open>{"addedAt":1,"contentId":true}\<close>, which is no \<^verbatim>\<open>CursorPayload\<close>: neither field is a string.
  \<^verbatim>\<open>decodeCursor\<close> returns it as one instead of failing with \<^verbatim>\<open>InvalidCursor\<close>.
\<close>

theorem decodeCursor_accepts_non_strings:
  "decodeCursor node_fragment token_not_strings =
     Inr (JObj [(''addedAt'', JNum 1), (''contentId'', JBool True)])"
  by (simp add: decodeCursor_def fragment_eval token_not_strings_def)

theorem decodeCursor_accepts_non_strings_witness:
  "truthy (get_prop (JObj [(''addedAt'', JNum 1), (''contentId'', JBool True)]) ''addedAt'') \<and>
   truthy (get_prop (JObj [(''addedAt'', JNum 1), (''contentId'', JBool True)]) ''contentId'') \<and>
   decodeCursor node_fragment token_not_strings \<noteq> Inl invalid_cursor"
  using decodeCursor_accepts_non_strings by simp

subsection \<open>Cache key\<close>

text \<open>
  \<^bold>\<open>C3.\<close> The cache key is \<^verbatim>\<open>JSON.stringify\<close> of the decoded cursor object as it is, so it
  follows the order in which the token's JSON text lists the fields. The two tokens below
  decode to objects with the same \<^verbatim>\<open>addedAt\<close> and the same \<^verbatim>\<open>contentId\<close>, and their keys for
  the same user and limit differ.
\<close>

theorem cacheKey_field_order_counterexample:
  "decodeCursor node_fragment token_in_order = Inr cursor_in_order \<and>
   decodeCursor node_fragment token_reversed = Inr cursor_reversed \<and>
   get_prop cursor_in_order ''addedAt'' = get_prop cursor_reversed ''addedAt'' \<and>
   get_prop cursor_in_order ''contentId'' = get_prop cursor_reversed ''contentId'' \<and>
   cacheKey ''user-123'' \<lparr>limit = 20, cursor = Some cursor_in_order\<rparr>
     \<noteq> cacheKey ''user-123'' \<lparr>limit = 20, cursor = Some cursor_reversed\<rparr>"
  by (simp add: decodeCursor_def fragment_eval token_in_order_def token_reversed_def
        cursor_in_order_def cursor_reversed_def cacheKey_def QuoteJSONString_def escape_char_def)

text \<open>
  \<^bold>\<open>C3, as amended.\<close> For every user, limit and strings \<open>a\<close> and \<open>c\<close>, the key of the request
  whose cursor lists \<^verbatim>\<open>addedAt\<close> \<open>a\<close> before \<^verbatim>\<open>contentId\<close> \<open>c\<close> is the text
  \<^verbatim>\<open>{"userId":U,"limit":L,"cursor":{"addedAt":A,"contentId":C}}\<close>, with the three strings quoted
  as \<^verbatim>\<open>JSON.stringify\<close> quotes them and the limit in decimal: a function of the four values.
  The cursor that lists the same two values with \<^verbatim>\<open>contentId\<close> first has the same \<^verbatim>\<open>addedAt\<close>
  and the same \<^verbatim>\<open>contentId\<close>, and the page fetched for it from any collection is the same
  page; its key is the text with the two fields in that other order, which is a different
  string. So the key follows the order in which the token lists the fields.
\<close>

theorem cacheKey_follows_field_order:
  \<open>cacheKey uid \<lparr>limit = l, cursor = Some (cursor_object a c)\<rparr>
     = ''{"userId":'' @ QuoteJSONString uid @ '',"limit":'' @ NumberToString (int l) @
       '',"cursor":{"addedAt":'' @ QuoteJSONString a @ '',"contentId":'' @ QuoteJSONString c @ ''}}'' \<and>
   cacheKey uid \<lparr>limit = l, cursor = Some (JObj [(''contentId'', JStr c), (''addedAt'', JStr a)])\<rparr>
     = ''{"userId":'' @ QuoteJSONString uid @ '',"limit":'' @ NumberToString (int l) @
       '',"cursor":{"contentId":'' @ QuoteJSONString c @ '',"addedAt":'' @ QuoteJSONString a @ ''}}'' \<and>
   get_prop (JObj [(''contentId'', JStr c), (''addedAt'', JStr a)]) ''addedAt''
     = get_prop (cursor_object a c) ''addedAt'' \<and>
   get_prop (JObj [(''contentId'', JStr c), (''addedAt'', JStr a)]) ''contentId''
     = get_prop (cursor_object a c) ''contentId'' \<and>
   fetch_page env rows uid \<lparr>limit = l, cursor = Some (JObj [(''contentId'', JStr c), (''addedAt'', JStr a)])\<rparr>
     = fetch_page env rows uid \<lparr>limit = l, cursor = Some (cursor_object a c)\<rparr> \<and>
   cacheKey uid \<lparr>limit = l, cursor = Some (JObj [(''contentId'', JStr c), (''addedAt'', JStr a)])\<rparr>
     \<noteq> cacheKey uid \<lparr>limit = l, cursor = Some (cursor_object a c)\<rparr>\<close>
proof (intro conjI)
  show \<open>cacheKey uid \<lparr>limit = l, cursor = Some (cursor_object a c)\<rparr>
     = ''{"userId":'' @ QuoteJSONString uid @ '',"limit":'' @ NumberToString (int l) @
       '',"cursor":{"addedAt":'' @ QuoteJSONString a @ '',"contentId":'' @ QuoteJSONString c @ ''}}''\<close>
    by (simp add: cacheKey_def cursor_object_def QuoteJSONString_escaped escaped_simps escape_char_def)
  show \<open>cacheKey uid \<lparr>limit = l, cursor = Some (JObj [(''contentId'', JStr c), (''addedAt'', JStr a)])\<rparr>
     = ''{"userId":'' @ QuoteJSONString uid @ '',"limit":'' @ NumberToString (int l) @
       '',"cursor":{"contentId":'' @ QuoteJSONString c @ '',"addedAt":'' @ QuoteJSONString a @ ''}}''\<close>
    by (simp add: cacheKey_def QuoteJSONString_escaped escaped_simps escape_char_def)
  show "get_prop (JObj [(''contentId'', JStr c), (''addedAt'', JStr a)]) ''addedAt''
     = get_prop (cursor_object a c) ''addedAt''"
    by (simp add: cursor_object_def)
  show "get_prop (JObj [(''contentId'', JStr c), (''addedAt'', JStr a)]) ''contentId''
     = get_prop (cursor_object a c) ''contentId''"
    by (simp add: cursor_object_def)
  show "fetch_page env rows uid \<lparr>limit = l, cursor = Some (JObj [(''contentId'', JStr c), (''addedAt'', JStr a)])\<rparr>
     = fetch_page env rows uid \<lparr>limit = l, cursor = Some (cursor_object a c)\<rparr>"
  proof -
    have "query_filter env uid (Some (JObj [(''contentId'', JStr c), (''addedAt'', JStr a)]))
            = query_filter env uid (Some (cursor_object a c))"
      by (simp add: query_filter_def cursor_object_def)
    then show ?thesis
      by (cases "query_filter env uid (Some (cursor_object a c))") (simp_all add: fetch_page_def Let_def)
  qed
  show "cacheKey uid \<lparr>limit = l, cursor = Some (JObj [(''contentId'', JStr c), (''addedAt'', JStr a)])\<rparr>
     \<noteq> cacheKey uid \<lparr>limit = l, cursor = Some (cursor_object a c)\<rparr>"
  proof
    assume "cacheKey uid \<lparr>limit = l, cursor = Some (JObj [(''contentId'', JStr c), (''addedAt'', JStr a)])\<rparr>
              = cacheKey uid \<lparr>limit = l, cursor = Some (cursor_object a c)\<rparr>"
    then have \<open>escaped uid @ CHR 0x22 # ('',"limit":'' @ digits l @
                 '',"cursor":{"contentId":'' @ QuoteJSONString c @ '',"addedAt":'' @ QuoteJSONString a @ ''}}'')
              = escaped uid @ CHR 0x22 # ('',"limit":'' @ digits l @
                 '',"cursor":{"addedAt":'' @ QuoteJSONString a @ '',"contentId":'' @ QuoteJSONString c @ ''}}'')\<close>
      by (simp add: cacheKey_def cursor_object_def QuoteJSONString_escaped escaped_simps
            escape_char_def NumberToString_def)
    then show False by simp
  qed
qed

section \<open>Verification of the mutations and of the list handler\<close>

subsection \<open>Add and remove\<close>

lemma deleteOne_zero: "snd (deleteOne P rows) = 0 \<Longrightarrow> fst (deleteOne P rows) = rows"
  by (induction rows) (auto split: if_splits)

lemma deleteOne_hit:
  "snd (deleteOne P rows) \<noteq> 0 \<Longrightarrow>
     \<exists>before r after. rows = before @ r # after \<and> P r \<and> (\<forall>x \<in> set before. \<not> P x) \<and>
        fst (deleteOne P rows) = before @ after"
proof (induction rows)
  case Nil
  then show ?case by simp
next
  case (Cons x rows)
  show ?case
  proof (cases "P x")
    case True
    then have "x # rows = [] @ x # rows \<and> P x \<and> (\<forall>y \<in> set []. \<not> P y) \<and>
        fst (deleteOne P (x # rows)) = [] @ rows" by simp
    then show ?thesis by blast
  next
    case False
    with Cons.prems have "snd (deleteOne P rows) \<noteq> 0" by simp
    from Cons.IH[OF this] obtain before r after where
      h: "rows = before @ r # after" "P r" "\<forall>y \<in> set before. \<not> P y"
         "fst (deleteOne P rows) = before @ after" by blast
    with False have "x # rows = (x # before) @ r # after \<and> P r \<and> (\<forall>y \<in> set (x # before). \<not> P y) \<and>
        fst (deleteOne P (x # rows)) = (x # before) @ after" by simp
    then show ?thesis by blast
  qed
qed

lemma toDTO_id: "toDTO r = r"
  by (simp add: toDTO_def)

lemma add_fails_unchanged:
  "addToMyList w now fault uid cid kind = (Inl e, w') \<Longrightarrow> w' = w"
  by (auto simp: addToMyList_def Let_def split: sum.splits if_splits prod.splits)

lemma add_succeeds:
  assumes "addToMyList w now fault uid cid kind = (Inr item, w')"
  shows "my_list w' = my_list w @ [item] \<and> userId item = uid \<and> contentId item = cid \<and>
         addedAt item = now \<and> listCache w' = cache_clear (listCache w) \<and>
         movies w' = movies w \<and> tv_shows w' = tv_shows w"
  using assms
  by (auto simp: addToMyList_def Let_def create_def invalidateCacheForUser_def toDTO_id
           split: sum.splits if_splits prod.splits)

lemma remove_fails_unchanged:
  "removeFromMyList w fault uid cid = (Inl e, w') \<Longrightarrow> w' = w"
  by (auto simp: removeFromMyList_def Let_def split: if_splits prod.splits)

lemma remove_succeeds:
  assumes "removeFromMyList w fault uid cid = (Inr u, w')"
  shows "(\<exists>before r after. my_list w = before @ r # after \<and> userId r = uid \<and> contentId r = cid \<and>
            (\<forall>x \<in> set before. \<not> (userId x = uid \<and> contentId x = cid)) \<and>
            my_list w' = before @ after) \<and>
         listCache w' = cache_clear (listCache w) \<and>
         movies w' = movies w \<and> tv_shows w' = tv_shows w"
proof -
  let ?P = "\<lambda>r. userId r = uid \<and> contentId r = cid"
  from assms have nz: "snd (deleteOne ?P (my_list w)) \<noteq> 0"
    and w': "w' = invalidateCacheForUser (w\<lparr>my_list := fst (deleteOne ?P (my_list w))\<rparr>) uid"
    by (auto simp: removeFromMyList_def Let_def split: if_splits prod.splits)
  from deleteOne_hit[OF nz] w' show ?thesis
    by (simp add: invalidateCacheForUser_def)
qed

text \<open>
  \<^bold>\<open>C4.\<close> When \<^verbatim>\<open>addToMyList\<close> or \<^verbatim>\<open>removeFromMyList\<close> fails, for whatever reason (content not
  found, already in the list, not in the list, a rejected persistence call), the whole
  state is what it was: no row is created or deleted and the cache is untouched. When it
  succeeds, the row is appended, respectively the first matching row is removed, and the
  cache is the cleared cache: an empty store.
\<close>

theorem mutations_all_or_nothing:
  assumes "addToMyList w now fault uid cid kind = (added, w_add)"
    and "removeFromMyList w fault' uid' cid' = (removed, w_rem)"
  shows "(isl added \<longrightarrow> w_add = w) \<and>
         (\<not> isl added \<longrightarrow>
            my_list w_add = my_list w @ [projr added] \<and>
            userId (projr added) = uid \<and> contentId (projr added) = cid \<and>
            listCache w_add = cache_clear (listCache w) \<and> store (listCache w_add) = []) \<and>
         (isl removed \<longrightarrow> w_rem = w) \<and>
         (\<not> isl removed \<longrightarrow>
            (\<exists>before r after. my_list w = before @ r # after \<and>
               userId r = uid' \<and> contentId r = cid' \<and> my_list w_rem = before @ after) \<and>
            listCache w_rem = cache_clear (listCache w) \<and> store (listCache w_rem) = [])"
proof (intro conjI impI)
  assume "isl added"
  then obtain e where "added = Inl e" by (cases added) auto
  with assms(1) show "w_add = w" by (auto dest: add_fails_unchanged)
next
  assume "\<not> isl added"
  then obtain item where item: "added = Inr item" by (cases added) auto
  from add_succeeds[OF assms(1)[unfolded item]] item
  show "my_list w_add = my_list w @ [projr added]" "userId (projr added) = uid"
    "contentId (projr added) = cid" "listCache w_add = cache_clear (listCache w)"
    "store (listCache w_add) = []"
    by (simp_all add: cache_clear_def)
next
  assume "isl removed"
  then obtain e where "removed = Inl e" by (cases removed) auto
  with assms(2) show "w_rem = w" by (auto dest: remove_fails_unchanged)
next
  assume "\<not> isl removed"
  then obtain u where u: "removed = Inr u" by (cases removed) auto
  from remove_succeeds[OF assms(2)[unfolded u]]
  show "\<exists>before r after. my_list w = before @ r # after \<and>
               userId r = uid' \<and> contentId r = cid' \<and> my_list w_rem = before @ after"
    "listCache w_rem = cache_clear (listCache w)" "store (listCache w_rem) = []"
    by (auto simp: cache_clear_def)
qed

lemmas world_eval = sample_world_def sample_rows_def new_cache_def

lemma sample_add_duplicate:
  "addToMyList sample_world 1704070000000 NoFault ''user-123'' ''movie-001'' Movie =
     (Inl (HttpError ''Content movie-001 already exists in the user's list'' 409 ''already_in_list''),
      sample_world)"
  by (simp add: addToMyList_def resolveContentMetadata_def create_def isDuplicateKeyError_def
        world_eval)

lemma sample_add_new:
  "fst (addToMyList sample_world 1704070000000 NoFault ''user-123'' ''movie-003'' Movie) =
     Inr \<lparr>userId = ''user-123'', contentId = ''movie-003'', contentType = Movie,
          title = ''Movie Three'', genres = [''Drama''], addedAt = 1704070000000\<rparr>"
  by (simp add: addToMyList_def resolveContentMetadata_def create_def isDuplicateKeyError_def
        toDTO_def Let_def world_eval)

lemma sample_remove_missing:
  "removeFromMyList sample_world NoFault ''user-123'' ''unknown'' =
     (Inl (HttpError ''Content unknown is not in the user's list'' 404 ''not_in_list''), sample_world)"
  by (simp add: removeFromMyList_def world_eval)

lemma sample_remove_present:
  "fst (removeFromMyList sample_world NoFault ''user-123'' ''show-001'') = Inr ()"
  by (simp add: removeFromMyList_def world_eval)

theorem mutations_all_or_nothing_witness:
  "isl (fst (addToMyList sample_world 1704070000000 NoFault ''user-123'' ''movie-001'' Movie)) \<and>
   snd (addToMyList sample_world 1704070000000 NoFault ''user-123'' ''movie-001'' Movie) = sample_world \<and>
   isl (fst (removeFromMyList sample_world NoFault ''user-123'' ''unknown'')) \<and>
   snd (removeFromMyList sample_world NoFault ''user-123'' ''unknown'') = sample_world \<and>
   \<not> isl (fst (addToMyList sample_world 1704070000000 NoFault ''user-123'' ''movie-003'' Movie)) \<and>
   store (listCache (snd (addToMyList sample_world 1704070000000 NoFault ''user-123'' ''movie-003'' Movie))) = [] \<and>
   \<not> isl (fst (removeFromMyList sample_world NoFault ''user-123'' ''show-001'')) \<and>
   store (listCache (snd (removeFromMyList sample_world NoFault ''user-123'' ''show-001''))) = []"
proof -
  note failing = mutations_all_or_nothing[OF surjective_pairing surjective_pairing,
          where w = sample_world and now = 1704070000000 and fault = NoFault and uid = "''user-123''"
            and cid = "''movie-001''" and kind = Movie and fault' = NoFault
            and uid' = "''user-123''" and cid' = "''unknown''"]
  note succeeding = mutations_all_or_nothing[OF surjective_pairing surjective_pairing,
          where w = sample_world and now = 1704070000000 and fault = NoFault and uid = "''user-123''"
            and cid = "''movie-003''" and kind = Movie and fault' = NoFault
            and uid' = "''user-123''" and cid' = "''show-001''"]
  have 1: "isl (fst (addToMyList sample_world 1704070000000 NoFault ''user-123'' ''movie-001'' Movie))"
    by (simp add: sample_add_duplicate)
  have 2: "isl (fst (removeFromMyList sample_world NoFault ''user-123'' ''unknown''))"
    by (simp add: sample_remove_missing)
  have 3: "\<not> isl (fst (addToMyList sample_world 1704070000000 NoFault ''user-123'' ''movie-003'' Movie))"
    by (simp add: sample_add_new)
  have 4: "\<not> isl (fst (removeFromMyList sample_world NoFault ''user-123'' ''show-001''))"
    by (simp add: sample_remove_present)
  from failing 1 2 succeeding 3 4 show ?thesis by blast
qed

subsection \<open>The limit\<close>

text \<open>
  \<^bold>\<open>C2.\<close> For \<^verbatim>\<open>limit=500\<close> the refinement of \<^verbatim>\<open>listQuerySchema\<close> fails first; zod throws a
  \<^verbatim>\<open>ZodError\<close>, which is not an \<^verbatim>\<open>HttpError\<close>, and \<^verbatim>\<open>errorHandler\<close> answers 500 with the code
  \<^verbatim>\<open>internal_error\<close>. The handler's own check \<^verbatim>\<open>query.limit > 100\<close> is never reached with a
  limit above 100, so no request is ever answered with \<^verbatim>\<open>limit_too_large\<close>
  (\<open>limit_too_large_never_sent\<close> below).
\<close>

theorem limit_500_is_internal_error:
  "handleListMyItems node_fragment sample_world (sample_clock 0)
     \<lparr>param_userId = ''user-123'', query_limit = Some ''500'', query_cursor = None\<rparr>
   = (\<lparr>status = 500, body = Error_code ''internal_error''\<rparr>, sample_world)"
  by (simp add: handleListMyItems_def userIdParamSchema_parse_def listQuerySchema_parse_def
        fragment_eval)

lemma fetch_page_errors: "fetch_page env rows uid opts = Inl e \<Longrightarrow> e = CastError \<or> e = TypeError"
  by (auto simp: fetch_page_def Let_def split: option.splits if_splits)

lemma listMyList_errors:
  "listMyList env w clock uid opts = (Inl e, w') \<Longrightarrow> e = CastError \<or> e = TypeError"
  by (auto simp: listMyList_def Let_def split: prod.splits option.splits sum.splits
           dest: fetch_page_errors)

lemma decodeCursor_errors: "decodeCursor env raw = Inl e \<Longrightarrow> e = invalid_cursor"
  by (auto simp: decodeCursor_result split: option.splits if_splits)

lemma map_sum_Inl: "map_sum id g x = Inl e \<longleftrightarrow> x = Inl e"
  by (cases x) auto

lemma parsed_limit_in_range:
  "listQuerySchema_parse env req = Inr (n, c) \<Longrightarrow> 0 < n \<and> n \<le> 100 \<and> c = query_cursor req"
  by (auto simp: listQuerySchema_parse_def split: option.splits if_splits)

lemma parse_errors: "listQuerySchema_parse env req = Inl e \<Longrightarrow> e = ZodError"
  "userIdParamSchema_parse uid = Inl e \<Longrightarrow> e = ZodError"
  by (auto simp: listQuerySchema_parse_def userIdParamSchema_parse_def split: option.splits if_splits)

lemma limit_too_large_never_sent:
  "body (fst (handleListMyItems env w clock req)) \<noteq> Error_code ''limit_too_large''"
proof -
  have 1: "body (errorHandler e) \<noteq> Error_code ''limit_too_large''"
    if "e = CastError \<or> e = TypeError \<or> e = ZodError \<or> e = invalid_cursor" for e
    using that by (auto simp: invalid_cursor_def)
  show ?thesis
    unfolding handleListMyItems_def
    by (auto simp: 1 map_sum_Inl split: sum.splits option.splits prod.splits if_splits
             dest!: listMyList_errors decodeCursor_errors parse_errors parsed_limit_in_range)
qed

text \<open>
  \<^bold>\<open>C10.\<close> A list request without the \<^verbatim>\<open>limit\<close> parameter is parsed to the limit 20, and
  the handler does with it exactly what it does with the same request carrying
  \<^verbatim>\<open>limit=20\<close> (\<^verbatim>\<open>Number("20")\<close> being 20): same response, same state afterwards.
\<close>

theorem default_limit_is_20:
  "listQuerySchema_parse env (req\<lparr>query_limit := None\<rparr>) = Inr (20, query_cursor req) \<and>
   (Number_of_string env ''20'' = Some 20 \<longrightarrow>
      handleListMyItems env w clock (req\<lparr>query_limit := None\<rparr>)
        = handleListMyItems env w clock (req\<lparr>query_limit := Some ''20''\<rparr>))"
proof (intro conjI impI)
  show "listQuerySchema_parse env (req\<lparr>query_limit := None\<rparr>) = Inr (20, query_cursor req)"
    by (simp add: listQuerySchema_parse_def)
next
  assume "Number_of_string env ''20'' = Some 20"
  then have p: "listQuerySchema_parse env (req\<lparr>query_limit := Some ''20''\<rparr>)
               = listQuerySchema_parse env (req\<lparr>query_limit := None\<rparr>)"
    by (simp add: listQuerySchema_parse_def)
  then show "handleListMyItems env w clock (req\<lparr>query_limit := None\<rparr>)
        = handleListMyItems env w clock (req\<lparr>query_limit := Some ''20''\<rparr>)"
    unfolding handleListMyItems_def p by simp
qed

theorem default_limit_is_20_witness:
  "Number_of_string node_fragment ''20'' = Some 20 \<and>
   handleListMyItems node_fragment sample_world (sample_clock 0)
       \<lparr>param_userId = ''user-123'', query_limit = None, query_cursor = None\<rparr>
     = handleListMyItems node_fragment sample_world (sample_clock 0)
       \<lparr>param_userId = ''user-123'', query_limit = Some ''20'', query_cursor = None\<rparr>"
proof -
  have n: "Number_of_string node_fragment ''20'' = Some 20" by (simp add: fragment_eval)
  from default_limit_is_20[where env = node_fragment and w = sample_world and clock = "sample_clock 0"
      and req = "\<lparr>param_userId = ''user-123'', query_limit = None, query_cursor = None\<rparr>"] n
  show ?thesis by simp
qed

section \<open>Verification of the pagination\<close>

subsection \<open>The sorted rows\<close>

lemma newest_first_sorted:
  assumes "distinct (map sort_key_of (filter (\<lambda>r. userId r = uid) rows))"
  shows "sorted_wrt (\<lambda>x y. sort_key_of y < sort_key_of x) (newest_first uid rows)"
proof -
  let ?mine = "filter (\<lambda>r. userId r = uid) rows"
  let ?xs = "sort_key sort_key_of ?mine"
  have "mset (map sort_key_of ?xs) = mset (map sort_key_of ?mine)" by simp
  then have "distinct (map sort_key_of ?xs)" using assms by (metis mset_eq_imp_distinct_iff)
  moreover have "sorted (map sort_key_of ?xs)" by simp
  ultimately have "sorted_wrt (<) (map sort_key_of ?xs)" by (simp add: strict_sorted_iff)
  then have "sorted_wrt (\<lambda>x y. sort_key_of x < sort_key_of y) ?xs" by (simp add: sorted_wrt_map)
  then show ?thesis by (simp add: newest_first_def sorted_wrt_rev)
qed

lemma newest_first_mset: "mset (newest_first uid rows) = mset (filter (\<lambda>r. userId r = uid) rows)"
  by (simp add: newest_first_def)

lemma filter_below:
  fixes f :: "'a \<Rightarrow> 'b :: linorder"
  assumes "sorted_wrt (\<lambda>x y. f y < f x) S" and "i < length S"
  shows "filter (\<lambda>r. f r < f (S ! i)) S = drop (Suc i) S"
proof -
  have S: "S = take i S @ S ! i # drop (Suc i) S" using assms(2) by (rule id_take_nth_drop)
  from assms(1) have "sorted_wrt (\<lambda>x y. f y < f x) (take i S @ S ! i # drop (Suc i) S)"
    using S by simp
  then have above: "\<forall>x \<in> set (take i S). f (S ! i) < f x"
    and below: "\<forall>y \<in> set (drop (Suc i) S). f y < f (S ! i)"
    by (auto simp: sorted_wrt_append)
  have "filter (\<lambda>r. f r < f (S ! i)) (take i S @ S ! i # drop (Suc i) S) = drop (Suc i) S"
    using above below by (auto simp: filter_empty_conv filter_id_conv)
  with S show ?thesis by simp
qed

lemma find_sorted_all:
  "find_sorted (\<lambda>r. userId r = uid) n rows = take n (newest_first uid rows)"
  by (simp add: find_sorted_def newest_first_def)

lemma find_sorted_below:
  "find_sorted (\<lambda>r. userId r = uid \<and> P r) n rows = take n (filter P (newest_first uid rows))"
proof -
  let ?mine = "filter (\<lambda>r. userId r = uid) rows"
  have "filter P (rev (sort_key sort_key_of ?mine)) = rev (filter P (sort_key sort_key_of ?mine))"
    by (simp only: rev_filter)
  also have "\<dots> = rev (sort_key sort_key_of (filter P ?mine))"
    by (simp only: filter_sort)
  also have "filter P ?mine = filter (\<lambda>r. userId r = uid \<and> P r) rows"
    by simp
  finally show ?thesis
    by (simp only: find_sorted_def newest_first_def)
qed

lemma key_below:
  "(addedAt x < d \<or> (addedAt x = d \<and> contentId x < c)) = (sort_key_of x < (d, c))"
  by (auto simp: sort_key_of_def)

subsection \<open>One page\<close>

lemma query_filter_none: "query_filter env uid None = Some (\<lambda>r. userId r = uid)"
  by (simp add: query_filter_def)

lemma query_filter_at:
  assumes "token_laws env r"
  shows "query_filter env uid (Some (cursor_at env r))
           = Some (\<lambda>x. userId x = uid \<and> sort_key_of x < sort_key_of r)"
proof -
  have "query_filter env uid (Some (cursor_at env r))
      = Some (\<lambda>x. userId x = uid \<and> (addedAt x < addedAt r \<or>
                  (addedAt x = addedAt r \<and> contentId x < contentId r)))"
    using assms by (simp add: query_filter_def cursor_at_def cursor_object_def token_laws_def)
  then show ?thesis by (simp add: key_below sort_key_of_def[of r])
qed

lemma page_of_rest:
  assumes "1 \<le> n" and "query_filter env uid (cursor opts) = Some query"
    and "limit opts = n" and "find_sorted query (n + 1) rows = take (n + 1) (drop j S)"
  shows "fetch_page env rows uid opts = Inr (page_at env S n j)"
proof -
  define found where "found = take (n + 1) (drop j S)"
  have unfolded: "fetch_page env rows uid opts =
     (if length found > n
      then (if take n found = [] then Inl TypeError
            else Inr \<lparr>items = map toDTO (take n found),
                      nextCursor = Some (encodeCursor env
                        (cursor_object (toISOString env (addedAt (last (take n found))))
                                       (contentId (last (take n found)))))\<rparr>)
      else Inr \<lparr>items = map toDTO found, nextCursor = None\<rparr>)"
  proof -
    have fs: "find_sorted query (Suc n) rows = found" using assms(4) by (simp add: found_def)
    show ?thesis by (simp add: fetch_page_def assms(2,3) Let_def fs)
  qed
  have dto: "map toDTO xs = xs" for xs by (simp add: toDTO_id map_idI)
  show ?thesis
  proof (cases "length (drop j S) > n")
    case True
    then have more: "length found > n" by (simp add: found_def)
    have t: "take n found = take n (drop j S)" by (simp add: found_def min_def)
    from True assms(1) have ne: "take n (drop j S) \<noteq> []" by auto
    from True assms(1) have "last (take n (drop j S)) = drop j S ! (n - 1)"
      by (simp add: last_conv_nth)
    also have "\<dots> = S ! (j + n - 1)" using True assms(1) by simp
    finally have l: "last (take n (drop j S)) = S ! (j + n - 1)" .
    have "fetch_page env rows uid opts =
        Inr \<lparr>items = take n (drop j S),
             nextCursor = Some (encodeCursor env (cursor_at env (S ! (j + n - 1))))\<rparr>"
      unfolding unfolded using more ne
      by (simp only: if_True t l dto cursor_at_def if_False)
    with True show ?thesis by (simp add: page_at_def)
  next
    case False
    then have all: "found = drop j S" by (simp add: found_def)
    from False have "\<not> length found > n" by (simp add: all)
    then have "fetch_page env rows uid opts = Inr \<lparr>items = drop j S, nextCursor = None\<rparr>"
      unfolding unfolded by (simp only: if_False dto all)
    with False show ?thesis by (simp add: page_at_def)
  qed
qed

lemma fetch_page_at:
  assumes "1 \<le> n" and "S = newest_first uid rows"
    and "sorted_wrt (\<lambda>x y. sort_key_of y < sort_key_of x) S"
    and "j \<le> length S" and "0 < j \<longrightarrow> token_laws env (S ! (j - 1))"
  shows "fetch_page env rows uid \<lparr>limit = n, cursor = cursor_after env S j\<rparr>
           = Inr (page_at env S n j)"
proof (cases "j = 0")
  case True
  show ?thesis
    by (rule page_of_rest[OF assms(1), where query = "\<lambda>r. userId r = uid"])
       (simp_all add: True cursor_after_def query_filter_none find_sorted_all assms(2))
next
  case False
  define i where "i = j - 1"
  define r where "r = S ! i"
  from False assms(4) have i: "i < length S" "Suc i = j" by (simp_all add: i_def)
  from False assms(5) have laws: "token_laws env r" by (simp add: r_def i_def)
  have cur: "cursor_after env S j = Some (cursor_at env r)"
    using False by (simp add: cursor_after_def r_def i_def)
  have "filter (\<lambda>x. sort_key_of x < sort_key_of r) S = drop j S"
    using filter_below[OF assms(3) i(1)] i(2) by (simp add: r_def)
  then have "find_sorted (\<lambda>x. userId x = uid \<and> sort_key_of x < sort_key_of r) (n + 1) rows
          = take (n + 1) (drop j S)"
    by (simp add: find_sorted_below assms(2)[symmetric])
  then show ?thesis
    by (intro page_of_rest[OF assms(1), where query = "\<lambda>x. userId x = uid \<and> sort_key_of x < sort_key_of r"])
       (simp_all add: cur query_filter_at[OF laws])
qed

subsection \<open>The cache stays coherent\<close>

lemma cache_get_hit:
  "fst (cache_get c now key) = Some v \<Longrightarrow> \<exists>e. (key, e) \<in> set (store c) \<and> value e = v"
  by (auto simp: cache_get_def split: option.splits if_splits dest: map_of_SomeD)

lemma cache_get_values:
  assumes "(k, e) \<in> set (store (snd (cache_get c now key)))"
  shows "\<exists>e0. (k, e0) \<in> set (store c) \<and> value e = value e0"
proof (cases "map_of (store c) key")
  case None
  with assms show ?thesis by (auto simp: cache_get_def)
next
  case (Some entry)
  then have in_store: "(key, entry) \<in> set (store c)" by (rule map_of_SomeD)
  show ?thesis
  proof (cases "ttlSeconds (options c) > 0 \<and> after now (expiresAt entry)")
    case True
    with assms Some have "(k, e) \<in> set (AList.delete key (store c))" by (simp add: cache_get_def)
    then show ?thesis by (auto simp: AList.delete_eq)
  next
    case False
    with assms Some have "(k, e) \<in> set (AList.update key
        (entry\<lparr>lastAccessCounter := accessCounter c + 1\<rparr>) (store c))"
      by (auto simp: cache_get_def)
    with update_subset have "(k, e) = (key, entry\<lparr>lastAccessCounter := accessCounter c + 1\<rparr>)
        \<or> (k, e) \<in> set (store c)" by fastforce
    with in_store show ?thesis by auto
  qed
qed

lemma enforce_subset: "set (store (enforceMaxItems c)) \<subseteq> set (store c)"
  by (auto simp: enforceMaxItems_def AList.delete_eq split: option.splits)

lemma cache_set_values:
  assumes "(k, e) \<in> set (store (cache_set c now key v))"
  shows "(k, e) \<in> set (store c) \<or> (k = key \<and> value e = v)"
proof -
  from assms enforce_subset have "(k, e) \<in> set (AList.update key (entry_for c now v) (store c))"
    unfolding cache_set_unfold by fastforce
  with update_subset have "(k, e) = (key, entry_for c now v) \<or> (k, e) \<in> set (store c)"
    by fastforce
  then show ?thesis by (auto simp: entry_for_def)
qed

lemma coherentI:
  assumes "\<And>key entry uid opts. (key, entry) \<in> set (store (listCache w)) \<Longrightarrow>
            cacheKey uid opts = key \<Longrightarrow> fetch_page env (my_list w) uid opts = Inr (value entry)"
  shows "coherent env w"
  using assms unfolding coherent_def by blast

lemma coherentD:
  assumes "coherent env w" and "(key, entry) \<in> set (store (listCache w))"
    and "cacheKey uid opts = key"
  shows "fetch_page env (my_list w) uid opts = Inr (value entry)"
  using assms unfolding coherent_def by blast

lemma listMyList_coherent:
  assumes co: "coherent env w"
    and run: "listMyList env w clock uid opts = (res, w')"
  shows "res = fetch_page env (my_list w) uid opts \<and> coherent env w' \<and> my_list w' = my_list w"
proof -
  let ?key = "cacheKey uid opts"
  obtain cached looked where get: "cache_get (listCache w) (fst clock) ?key = (cached, looked)"
    by (cases "cache_get (listCache w) (fst clock) ?key")
  have looked_values: "\<exists>e0. (k, e0) \<in> set (store (listCache w)) \<and> value e = value e0"
    if "(k, e) \<in> set (store looked)" for k e
    using cache_get_values[of k e "listCache w" "fst clock" ?key] that get by simp
  have co_looked: "coherent env (w\<lparr>listCache := looked\<rparr>)"
  proof (rule coherentI)
    fix key entry u o'
    assume "(key, entry) \<in> set (store (listCache (w\<lparr>listCache := looked\<rparr>)))"
      and c: "cacheKey u o' = key"
    then obtain e0 where "(key, e0) \<in> set (store (listCache w))" "value entry = value e0"
      using looked_values by auto
    with coherentD[OF co this(1) c] show "fetch_page env (my_list (w\<lparr>listCache := looked\<rparr>)) u o' = Inr (value entry)"
      by simp
  qed
  show ?thesis
  proof (cases cached)
    case (Some v)
    with get have "fst (cache_get (listCache w) (fst clock) ?key) = Some v" by simp
    from cache_get_hit[OF this] obtain e where "(?key, e) \<in> set (store (listCache w))" "value e = v"
      by blast
    with coherentD[OF co this(1) refl] have "fetch_page env (my_list w) uid opts = Inr v" by simp
    moreover from run get Some have "res = Inr v" "w' = w\<lparr>listCache := looked\<rparr>"
      by (simp_all add: listMyList_def)
    ultimately show ?thesis using co_looked by simp
  next
    case None
    show ?thesis
    proof (cases "fetch_page env (my_list w) uid opts")
      case (Inl e)
      with run get None have "res = Inl e" "w' = w\<lparr>listCache := looked\<rparr>"
        by (simp_all add: listMyList_def)
      with Inl co_looked show ?thesis by simp
    next
      case (Inr result)
      with run get None have res: "res = Inr result"
        and w': "w' = w\<lparr>listCache := cache_set looked (snd clock) ?key result\<rparr>"
        by (simp_all add: listMyList_def)
      have "coherent env w'"
      proof (rule coherentI)
        fix key entry u o'
        assume "(key, entry) \<in> set (store (listCache w'))" and c: "cacheKey u o' = key"
        then have "(key, entry) \<in> set (store (cache_set looked (snd clock) ?key result))"
          by (simp add: w')
        from cache_set_values[OF this] show "fetch_page env (my_list w') u o' = Inr (value entry)"
        proof
          assume "(key, entry) \<in> set (store looked)"
          then have "(key, entry) \<in> set (store (listCache (w\<lparr>listCache := looked\<rparr>)))" by simp
          from coherentD[OF co_looked this c] show ?thesis by (simp add: w')
        next
          assume k: "key = ?key \<and> value entry = result"
          with c have "cacheKey u o' = cacheKey uid opts" by simp
          from cacheKey_inj[OF this] Inr k show ?thesis by (simp add: w')
        qed
      qed
      with res Inr w' show ?thesis by simp
    qed
  qed
qed

subsection \<open>One call of the handler\<close>

lemma handle_list:
  assumes "uid \<noteq> []"
    and "(case lim of None \<Rightarrow> Some 20 | Some s \<Rightarrow> Number_of_string env s) = Some (int n)"
    and "1 \<le> n" and "n \<le> 100"
    and "token = map_option (encodeCursor env) cur"
    and "\<And>c. cur = Some c \<Longrightarrow> encodeCursor env c \<noteq> [] \<and> decodeCursor env (encodeCursor env c) = Inr c"
  shows "handleListMyItems env w clk \<lparr>param_userId = uid, query_limit = lim, query_cursor = token\<rparr>
          = (case listMyList env w clk uid \<lparr>limit = n, cursor = cur\<rparr> of
               (Inl e, w') \<Rightarrow> (errorHandler e, w')
             | (Inr result, w') \<Rightarrow> (\<lparr>status = 200, body = Data_page result\<rparr>, w'))"
proof -
  have u: "userIdParamSchema_parse uid = Inr uid"
    using assms(1) by (cases uid) (simp_all add: userIdParamSchema_parse_def)
  have q: "listQuerySchema_parse env \<lparr>param_userId = uid, query_limit = lim, query_cursor = token\<rparr>
             = Inr (int n, token)"
    using assms(2,3,4) by (simp add: listQuerySchema_parse_def)
  have c: "(case token of None \<Rightarrow> Inr None
            | Some raw \<Rightarrow> if raw = [] then Inr None else map_sum id Some (decodeCursor env raw))
           = Inr cur"
    using assms(5,6) by (cases cur) simp_all
  have l: "\<not> int n > 100" using assms(4) by simp
  show ?thesis
    unfolding handleListMyItems_def
    by (simp only: u q c l list_request.simps sum.case prod.case if_False nat_int)
qed

subsection \<open>Following the cursors\<close>

lemma decode_minted:
  assumes "token_laws env r" and "contentId r \<noteq> []"
  shows "encodeCursor env (cursor_at env r) \<noteq> [] \<and>
         decodeCursor env (encodeCursor env (cursor_at env r)) = Inr (cursor_at env r)"
proof -
  from assms have "decodeCursor env (encodeCursor env (cursor_at env r)) = Inr (cursor_at env r)"
    by (intro decode_encode) (simp_all add: token_laws_def cursor_at_def cursor_object_props)
  with assms(1) show ?thesis by (simp add: token_laws_def)
qed

lemma one_call:
  assumes "uid \<noteq> []"
    and "(case lim of None \<Rightarrow> Some 20 | Some s \<Rightarrow> Number_of_string env s) = Some (int n)"
    and "1 \<le> n" and "n \<le> 100"
    and "S = newest_first uid (my_list w)"
    and "sorted_wrt (\<lambda>x y. sort_key_of y < sort_key_of x) S"
    and "\<forall>r \<in> set S. token_laws env r \<and> contentId r \<noteq> []"
    and "coherent env w" and "j \<le> length S"
  shows "\<exists>w'. handleListMyItems env w clk
                 \<lparr>param_userId = uid, query_limit = lim, query_cursor = token_after env S j\<rparr>
               = (\<lparr>status = 200, body = Data_page (page_at env S n j)\<rparr>, w') \<and>
              my_list w' = my_list w \<and> coherent env w'"
proof -
  let ?opts = "\<lparr>limit = n, cursor = cursor_after env S j\<rparr>"
  have laws: "token_laws env (S ! (j - 1)) \<and> contentId (S ! (j - 1)) \<noteq> []" if "0 < j"
    using that assms(7,9) by simp
  have minted: "encodeCursor env c \<noteq> [] \<and> decodeCursor env (encodeCursor env c) = Inr c"
    if "cursor_after env S j = Some c" for c
  proof -
    from that have "0 < j" "c = cursor_at env (S ! (j - 1))"
      by (auto simp: cursor_after_def split: if_splits)
    with laws decode_minted show ?thesis by blast
  qed
  obtain res w' where run: "listMyList env w clk uid ?opts = (res, w')"
    by (cases "listMyList env w clk uid ?opts")
  from listMyList_coherent[OF assms(8) run]
  have res: "res = fetch_page env (my_list w) uid ?opts" and co: "coherent env w'"
    and same: "my_list w' = my_list w" by simp_all
  have "fetch_page env (my_list w) uid ?opts = Inr (page_at env S n j)"
    using laws by (intro fetch_page_at[OF assms(3,5,6,9)]) simp
  with res have "res = Inr (page_at env S n j)" by simp
  with handle_list[OF assms(1,2,3,4) _ minted, where token = "token_after env S j"
         and cur = "cursor_after env S j" and w = w and clk = clk] run
  have "handleListMyItems env w clk
          \<lparr>param_userId = uid, query_limit = lim, query_cursor = token_after env S j\<rparr>
        = (\<lparr>status = 200, body = Data_page (page_at env S n j)\<rparr>, w')"
    by (simp add: token_after_def)
  with co same show ?thesis by blast
qed

lemma paginate_from:
  assumes "uid \<noteq> []"
    and "(case lim of None \<Rightarrow> Some 20 | Some s \<Rightarrow> Number_of_string env s) = Some (int n)"
    and "1 \<le> n" and "n \<le> 100"
    and "S = newest_first uid rows"
    and "sorted_wrt (\<lambda>x y. sort_key_of y < sort_key_of x) S"
    and "\<forall>r \<in> set S. token_laws env r \<and> contentId r \<noteq> []"
  shows "my_list w = rows \<Longrightarrow> coherent env w \<Longrightarrow> j \<le> length S \<Longrightarrow> length S - j < fuel \<Longrightarrow>
         \<exists>pages w'. paginate env clock uid lim fuel k w (token_after env S j) = Done pages w' \<and>
            concat (map items pages) = drop j S \<and> pages \<noteq> [] \<and>
            nextCursor (last pages) = None \<and>
            (\<forall>p \<in> set (butlast pages). nextCursor p \<noteq> None \<and> length (items p) = n) \<and>
            my_list w' = rows \<and> coherent env w'"
proof (induction fuel arbitrary: j k w)
  case 0
  then show ?case by simp
next
  case (Suc fuel)
  from assms(5) Suc.prems(1) have S: "S = newest_first uid (my_list w)" by simp
  from one_call[OF assms(1,2,3,4) S assms(6,7) Suc.prems(2,3), of "clock k"]
  obtain w1 where call: "handleListMyItems env w (clock k)
                 \<lparr>param_userId = uid, query_limit = lim, query_cursor = token_after env S j\<rparr>
               = (\<lparr>status = 200, body = Data_page (page_at env S n j)\<rparr>, w1)"
    and w1: "my_list w1 = rows" "coherent env w1" using Suc.prems(1) by auto
  show ?case
  proof (cases "length (drop j S) > n")
    case False
    then have page: "page_at env S n j = \<lparr>items = drop j S, nextCursor = None\<rparr>"
      by (simp add: page_at_def)
    have "paginate env clock uid lim (Suc fuel) k w (token_after env S j)
            = Done [page_at env S n j] w1"
      by (simp add: call page)
    with w1 page show ?thesis by simp
  next
    case True
    let ?j' = "j + n"
    have page: "page_at env S n j = \<lparr>items = take n (drop j S),
        nextCursor = Some (encodeCursor env (cursor_at env (S ! (j + n - 1))))\<rparr>"
      using True by (simp add: page_at_def)
    have next_token: "token_after env S ?j' = Some (encodeCursor env (cursor_at env (S ! (j + n - 1))))"
      using assms(3) by (simp add: token_after_def cursor_after_def)
    from True have j': "?j' \<le> length S" by simp
    from True Suc.prems(4) assms(3) have fuel: "length S - ?j' < fuel" by simp
    from Suc.IH[OF w1 j' fuel, of "Suc k"] obtain pages w' where
      rest: "paginate env clock uid lim fuel (Suc k) w1 (token_after env S ?j') = Done pages w'"
        "concat (map items pages) = drop ?j' S" "pages \<noteq> []" "nextCursor (last pages) = None"
        "\<forall>p \<in> set (butlast pages). nextCursor p \<noteq> None \<and> length (items p) = n"
        "my_list w' = rows" "coherent env w'" by blast
    have "paginate env clock uid lim (Suc fuel) k w (token_after env S j)
            = Done (page_at env S n j # pages) w'"
      using rest(1) by (simp add: call page next_token)
    moreover have "concat (map items (page_at env S n j # pages)) = drop j S"
    proof -
      have "take n (drop j S) @ drop n (drop j S) = drop j S" by (rule append_take_drop_id)
      then show ?thesis by (simp add: page rest(2) add.commute)
    qed
    moreover have "\<forall>p \<in> set (butlast (page_at env S n j # pages)).
        nextCursor p \<noteq> None \<and> length (items p) = n"
      using rest(3,5) True by (auto simp: page)
    ultimately show ?thesis using rest(3,4,6,7) by auto
  qed
qed

subsection \<open>The hypotheses are kept by the service\<close>

lemma coherent_empty: "store (listCache w) = [] \<Longrightarrow> coherent env w"
  by (simp add: coherent_def)

lemma handleListMyItems_coherent:
  assumes "coherent env w" and "handleListMyItems env w clk req = (resp, w')"
  shows "coherent env w' \<and> my_list w' = my_list w"
proof -
  have keep: "coherent env (snd (listMyList env w clk u opts)) \<and>
              my_list (snd (listMyList env w clk u opts)) = my_list w" for u opts
    using listMyList_coherent[OF assms(1), of clk u opts
            "fst (listMyList env w clk u opts)" "snd (listMyList env w clk u opts)"]
    by simp
  have "w' = w \<or> (\<exists>u opts. w' = snd (listMyList env w clk u opts))"
    using assms(2) unfolding handleListMyItems_def
    by (auto split: sum.splits prod.splits if_splits option.splits) (metis snd_conv)+
  with keep assms(1) show ?thesis by auto
qed

lemma add_coherent:
  assumes "coherent env w" and "addToMyList w now fault uid cid kind = (res, w')"
  shows "coherent env w'"
proof (cases res)
  case (Inl e)
  with assms show ?thesis by (auto dest: add_fails_unchanged)
next
  case (Inr item)
  with add_succeeds[of w now fault uid cid kind item w'] assms(2)
  show ?thesis by (intro coherent_empty) (simp add: cache_clear_def)
qed

lemma remove_coherent:
  assumes "coherent env w" and "removeFromMyList w fault uid cid = (res, w')"
  shows "coherent env w'"
proof (cases res)
  case (Inl e)
  with assms show ?thesis by (auto dest: remove_fails_unchanged)
next
  case (Inr u)
  with remove_succeeds[of w fault uid cid u w'] assms(2)
  show ?thesis by (intro coherent_empty) (simp add: cache_clear_def)
qed

lemma add_unique:
  assumes "distinct (map (\<lambda>r. (userId r, contentId r)) (my_list w))"
    and "addToMyList w now fault uid cid kind = (res, w')"
  shows "distinct (map (\<lambda>r. (userId r, contentId r)) (my_list w'))"
  using assms
  by (auto simp: addToMyList_def Let_def create_def invalidateCacheForUser_def
           split: sum.splits if_splits prod.splits)

lemma remove_unique:
  assumes "distinct (map (\<lambda>r. (userId r, contentId r)) (my_list w))"
    and "removeFromMyList w fault uid cid = (res, w')"
  shows "distinct (map (\<lambda>r. (userId r, contentId r)) (my_list w'))"
proof (cases res)
  case (Inl e)
  with assms show ?thesis by (auto dest: remove_fails_unchanged)
next
  case (Inr u)
  with remove_succeeds[of w fault uid cid u w'] assms(2)
  obtain before r after where "my_list w = before @ r # after" "my_list w' = before @ after"
    by blast
  with assms(1) show ?thesis by auto
qed

lemma unique_per_user:
  assumes "distinct (map (\<lambda>r. (userId r, contentId r)) rows)"
  shows "distinct (map contentId (filter (\<lambda>r. userId r = uid) rows))"
  using assms by (induction rows) (auto simp: image_iff)

lemma find_sorted_satisfies: "r \<in> set (find_sorted Q n rows) \<Longrightarrow> Q r"
  by (auto simp: find_sorted_def dest: in_set_takeD)

lemma fetch_page_items:
  assumes "fetch_page env rows uid opts = Inr page" and "query_filter env uid (cursor opts) = Some Q"
  shows "\<forall>r \<in> set (items page). Q r"
proof -
  have dto: "map toDTO xs = xs" for xs by (simp add: toDTO_id map_idI)
  from assms have "set (items page) \<subseteq> set (find_sorted Q (limit opts + 1) rows)"
    by (auto simp: fetch_page_def Let_def dto split: if_splits dest: in_set_takeD)
  then show ?thesis by (auto dest: find_sorted_satisfies)
qed

lemma query_filter_object:
  assumes "new_Date env (Some (JStr a)) = Some d" and "castString env (Some (JStr c)) = Some c'"
  shows "query_filter env uid (Some (cursor_object a c))
           = Some (\<lambda>r. userId r = uid \<and> (addedAt r < d \<or> (addedAt r = d \<and> contentId r < c')))"
  using assms by (simp add: query_filter_def cursor_object_def)

lemma page_after_cursor:
  assumes "coherent env w"
    and "new_Date env (Some (JStr a)) = Some d" and "castString env (Some (JStr c)) = Some c'"
    and "listMyList env w clk uid \<lparr>limit = n, cursor = Some (cursor_object a c)\<rparr> = (Inr page, w1)"
  shows "\<forall>r \<in> set (items page).
           userId r = uid \<and> (addedAt r < d \<or> (addedAt r = d \<and> contentId r < c'))"
proof -
  from listMyList_coherent[OF assms(1,4)]
  have "fetch_page env (my_list w) uid \<lparr>limit = n, cursor = Some (cursor_object a c)\<rparr> = Inr page"
    by simp
  from fetch_page_items[OF this] query_filter_object[OF assms(2,3)] show ?thesis by simp
qed

lemma distinct_sort_keys:
  assumes "distinct (map contentId xs)"
  shows "distinct (map sort_key_of xs)"
proof -
  from assms have "distinct xs" "inj_on contentId (set xs)" by (simp_all add: distinct_map)
  moreover have "inj_on sort_key_of (set xs)"
  proof (rule inj_onI)
    fix x y assume "x \<in> set xs" "y \<in> set xs" "sort_key_of x = sort_key_of y"
    then have "contentId x = contentId y" by (simp add: sort_key_of_def)
    with \<open>inj_on contentId (set xs)\<close> \<open>x \<in> set xs\<close> \<open>y \<in> set xs\<close> show "x = y"
      by (auto dest: inj_onD)
  qed
  ultimately show ?thesis by (simp add: distinct_map)
qed

lemma key_order:
  "(sort_key_of y < sort_key_of x) =
     (addedAt x > addedAt y \<or> (addedAt x = addedAt y \<and> contentId x > contentId y))"
  by (auto simp: sort_key_of_def)

text \<open>
  \<^bold>\<open>C1.\<close> Take a user with a non-empty id, a limit \<open>n\<close> between 1 and 100 (given as text,
  or omitted when \<open>n\<close> is 20), the user's rows \<open>mine\<close> with distinct non-empty content ids
  (the unique index), a platform that reads the cursor of each of these rows back, and a
  cache that agrees with the collection. Then the client that starts without a cursor and
  passes each \<^verbatim>\<open>nextCursor\<close> back ends after at most \<open>length mine + 1\<close> calls; the pages
  together hold exactly the rows of \<open>mine\<close>, each once, ordered by \<^verbatim>\<open>addedAt\<close> descending
  and then \<^verbatim>\<open>contentId\<close> descending; every page before the last is full and carries a
  \<^verbatim>\<open>nextCursor\<close>, and the last page carries none. Moreover a page fetched with the cursor
  \<open>(a, c)\<close>, read by the platform as the instant \<open>d\<close> and the string \<open>c'\<close>, holds only rows of
  the user with \<open>addedAt < d\<close>, or \<open>addedAt = d\<close> and \<open>contentId < c'\<close>.
\<close>

theorem pagination_complete:
  assumes "uid \<noteq> []"
    and "(case lim of None \<Rightarrow> Some 20 | Some s \<Rightarrow> Number_of_string env s) = Some (int n)"
    and "1 \<le> n" and "n \<le> 100"
    and "mine = filter (\<lambda>r. userId r = uid) (my_list w)"
    and "distinct (map contentId mine)"
    and "\<forall>r \<in> set mine. contentId r \<noteq> [] \<and> token_laws env r"
    and "coherent env w"
    and "length mine < fuel"
  shows "(\<exists>pages w'. paginate env clock uid lim fuel 0 w None = Done pages w' \<and>
            mset (concat (map items pages)) = mset mine \<and>
            length (concat (map items pages)) = length mine \<and>
            distinct (concat (map items pages)) \<and>
            sorted_wrt (\<lambda>x y. addedAt x > addedAt y \<or>
                              (addedAt x = addedAt y \<and> contentId x > contentId y))
                       (concat (map items pages)) \<and>
            pages \<noteq> [] \<and> nextCursor (last pages) = None \<and>
            (\<forall>p \<in> set (butlast pages). nextCursor p \<noteq> None \<and> length (items p) = n) \<and>
            my_list w' = my_list w) \<and>
         (\<forall>a c d c' clk page w1.
            new_Date env (Some (JStr a)) = Some d \<and> castString env (Some (JStr c)) = Some c' \<and>
            listMyList env w clk uid \<lparr>limit = n, cursor = Some (cursor_object a c)\<rparr> = (Inr page, w1)
            \<longrightarrow> (\<forall>r \<in> set (items page).
                   userId r = uid \<and> (addedAt r < d \<or> (addedAt r = d \<and> contentId r < c'))))"
proof
  define S where "S = newest_first uid (my_list w)"
  have ms: "mset S = mset mine" by (simp add: S_def newest_first_mset assms(5))
  then have set: "set S = set mine" by (rule mset_eq_setD)
  from ms have len: "length S = length mine" by (rule mset_eq_length)
  have sorted: "sorted_wrt (\<lambda>x y. sort_key_of y < sort_key_of x) S"
    unfolding S_def using assms(6) by (intro newest_first_sorted distinct_sort_keys) (simp add: assms(5))
  have laws: "\<forall>r \<in> set S. token_laws env r \<and> contentId r \<noteq> []"
    using assms(7) set by auto
  have "token_after env S 0 = None" by (simp add: token_after_def cursor_after_def)
  with paginate_from[OF assms(1,2,3,4) S_def sorted laws refl assms(8), of 0 fuel clock 0]
    assms(9) len
  obtain pages w' where
    run: "paginate env clock uid lim fuel 0 w None = Done pages w'"
      "concat (map items pages) = S" "pages \<noteq> []" "nextCursor (last pages) = None"
      "\<forall>p \<in> set (butlast pages). nextCursor p \<noteq> None \<and> length (items p) = n"
      "my_list w' = my_list w" by auto
  from assms(6) have "distinct mine" by (simp add: distinct_map)
  with ms have d: "distinct S" by (metis mset_eq_imp_distinct_iff)
  have s: "sorted_wrt (\<lambda>x y. addedAt x > addedAt y \<or>
                              (addedAt x = addedAt y \<and> contentId x > contentId y)) S"
    using sorted by (simp add: key_order)
  from run ms len d s
  show "\<exists>pages w'. paginate env clock uid lim fuel 0 w None = Done pages w' \<and>
            mset (concat (map items pages)) = mset mine \<and>
            length (concat (map items pages)) = length mine \<and>
            distinct (concat (map items pages)) \<and>
            sorted_wrt (\<lambda>x y. addedAt x > addedAt y \<or>
                              (addedAt x = addedAt y \<and> contentId x > contentId y))
                       (concat (map items pages)) \<and>
            pages \<noteq> [] \<and> nextCursor (last pages) = None \<and>
            (\<forall>p \<in> set (butlast pages). nextCursor p \<noteq> None \<and> length (items p) = n) \<and>
            my_list w' = my_list w"
    by auto
next
  show "\<forall>a c d c' clk page w1.
            new_Date env (Some (JStr a)) = Some d \<and> castString env (Some (JStr c)) = Some c' \<and>
            listMyList env w clk uid \<lparr>limit = n, cursor = Some (cursor_object a c)\<rparr> = (Inr page, w1)
            \<longrightarrow> (\<forall>r \<in> set (items page).
                   userId r = uid \<and> (addedAt r < d \<or> (addedAt r = d \<and> contentId r < c')))"
    using page_after_cursor[OF assms(8)] by blast
qed

subsection \<open>The sample installation\<close>

lemma sample_mine:
  "filter (\<lambda>r. userId r = ''user-123'') (my_list sample_world) =
     [\<lparr>userId = ''user-123'', contentId = ''movie-001'', contentType = Movie,
       title = ''Movie One'', genres = [''Action''], addedAt = 1704067200000\<rparr>,
      \<lparr>userId = ''user-123'', contentId = ''show-001'', contentType = TVShow,
       title = ''Show One'', genres = [''SciFi''], addedAt = 1704067260000\<rparr>,
      \<lparr>userId = ''user-123'', contentId = ''movie-002'', contentType = Movie,
       title = ''Movie Two'', genres = [], addedAt = 1704067260000\<rparr>]"
  by (simp add: world_eval)

lemma sample_token_laws:
  "\<forall>r \<in> set (filter (\<lambda>r. userId r = ''user-123'') (my_list sample_world)).
         contentId r \<noteq> [] \<and> token_laws node_fragment r"
  unfolding sample_mine
  by (simp add: token_laws_def codec_laws_def cursor_at_def cursor_object_def encodeCursor_def
        QuoteJSONString_def escape_char_def fragment_eval)

lemma sample_coherent: "coherent node_fragment sample_world"
  by (simp add: coherent_def sample_world_def new_cache_def)

lemma sample_second_page:
  "fst (listMyList node_fragment sample_world (sample_clock 0) ''user-123''
         \<lparr>limit = 2, cursor = Some (cursor_object ''2024-01-01T00:01:00.000Z'' ''movie-002'')\<rparr>)
   = Inr \<lparr>items = [\<lparr>userId = ''user-123'', contentId = ''movie-001'', contentType = Movie,
                    title = ''Movie One'', genres = [''Action''], addedAt = 1704067200000\<rparr>],
          nextCursor = None\<rparr>"
  by (simp add: listMyList_def cache_get_def cacheKey_def fetch_page_def query_filter_def
      cursor_object_def find_sorted_def sort_key_of_def toDTO_def Let_def world_eval fragment_eval)

lemma sample_pagination_run:
  "(case paginate node_fragment sample_clock ''user-123'' (Some ''2'') 4 0 sample_world None of
      Done pages w' \<Rightarrow> map (\<lambda>p. (map contentId (items p), nextCursor p)) pages
    | _ \<Rightarrow> [])
   = [([''show-001'', ''movie-002''],
       Some ''eyJhZGRlZEF0IjoiMjAyNC0wMS0wMVQwMDowMTowMC4wMDBaIiwiY29udGVudElkIjoibW92aWUtMDAyIn0=''),
      ([''movie-001''], None)]"
  by code_simp

theorem pagination_complete_witness:
  "''user-123'' \<noteq> [] \<and>
   Number_of_string node_fragment ''2'' = Some 2 \<and>
   distinct (map contentId (filter (\<lambda>r. userId r = ''user-123'') (my_list sample_world))) \<and>
   list_all (\<lambda>r. contentId r \<noteq> [] \<and> token_laws node_fragment r)
     (filter (\<lambda>r. userId r = ''user-123'') (my_list sample_world)) \<and>
   coherent node_fragment sample_world \<and>
   length (filter (\<lambda>r. userId r = ''user-123'') (my_list sample_world)) < 4 \<and>
   (\<exists>pages w'. paginate node_fragment sample_clock ''user-123'' (Some ''2'') 4 0 sample_world None
                  = Done pages w' \<and>
       mset (concat (map items pages))
         = mset (filter (\<lambda>r. userId r = ''user-123'') (my_list sample_world)) \<and>
       length (concat (map items pages)) = 3 \<and>
       nextCursor (last pages) = None) \<and>
   list_all (\<lambda>r. userId r = ''user-123'' \<and>
                  (addedAt r < 1704067260000 \<or>
                   (addedAt r = 1704067260000 \<and> contentId r < ''movie-002'')))
     (items (projr (fst (listMyList node_fragment sample_world (sample_clock 0) ''user-123''
         \<lparr>limit = 2, cursor = Some (cursor_object ''2024-01-01T00:01:00.000Z'' ''movie-002'')\<rparr>))))"
proof -
  let ?mine = "filter (\<lambda>r. userId r = ''user-123'') (my_list sample_world)"
  let ?call = "listMyList node_fragment sample_world (sample_clock 0) ''user-123''
         \<lparr>limit = 2, cursor = Some (cursor_object ''2024-01-01T00:01:00.000Z'' ''movie-002'')\<rparr>"
  have 1: "''user-123'' \<noteq> []" by simp
  have 2: "(case Some ''2'' of None \<Rightarrow> Some 20 | Some s \<Rightarrow> Number_of_string node_fragment s)
             = Some (int 2)" by (simp add: fragment_eval)
  have 3: "1 \<le> (2 :: nat)" and 4: "(2 :: nat) \<le> 100" by simp_all
  have 6: "distinct (map contentId ?mine)" unfolding sample_mine by simp
  have 9: "length ?mine < 4" unfolding sample_mine by simp
  have 10: "new_Date node_fragment (Some (JStr ''2024-01-01T00:01:00.000Z'')) = Some 1704067260000"
    by (simp add: fragment_eval)
  have 11: "castString node_fragment (Some (JStr ''movie-002'')) = Some ''movie-002''"
    by (simp add: fragment_eval)
  have 12: "?call = (Inr (projr (fst ?call)), snd ?call)"
    by (rule prod_eqI) (simp_all add: sample_second_page)
  have len: "length ?mine = 3" unfolding sample_mine by simp
  note run = pagination_complete[OF 1 2 3 4 refl 6 sample_token_laws sample_coherent 9,
      where clock = sample_clock, THEN conjunct1]
  note after = pagination_complete[OF 1 2 3 4 refl 6 sample_token_laws sample_coherent 9,
      THEN conjunct2, rule_format, OF conjI[OF 10 conjI[OF 11 12]]]
  from run after
  have "(\<exists>pages w'. paginate node_fragment sample_clock ''user-123'' (Some ''2'') 4 0 sample_world None
                  = Done pages w' \<and>
       mset (concat (map items pages)) = mset ?mine \<and>
       length (concat (map items pages)) = 3 \<and>
       nextCursor (last pages) = None)"
    and "list_all (\<lambda>r. userId r = ''user-123'' \<and>
                  (addedAt r < 1704067260000 \<or>
                   (addedAt r = 1704067260000 \<and> contentId r < ''movie-002'')))
           (items (projr (fst ?call)))"
    unfolding list_all_iff len by blast+
  moreover have "Number_of_string node_fragment ''2'' = Some 2" using 2 by simp
  moreover have "list_all (\<lambda>r. contentId r \<noteq> [] \<and> token_laws node_fragment r) ?mine"
    using sample_token_laws by (simp only: list_all_iff)
  ultimately show ?thesis using 1 6 9 sample_coherent by (intro conjI)
qed

end
